theory Spec2Isabelle
  imports Complex_Main "HOL-Library.Word" "HOL-Library.AList" "HOL-Library.Sublist"
begin

section \<open>Text chunking\<close>

text \<open>
  A JavaScript string is a sequence of UTF-16 code units; \<open>length\<close>, \<open>charAt\<close>,
  \<open>substring\<close> and \<open>trim\<close> all count code units.
\<close>

type_synonym jschar = "16 word"
type_synonym jsstring = "jschar list"

text \<open>The ideographic full stop U+3002 and the ASCII full stop U+002E.\<close>

definition IDEOGRAPHIC_STOP :: jschar where
  "IDEOGRAPHIC_STOP = 0x3002"

definition FULL_STOP :: jschar where
  "FULL_STOP = 0x2E"

text \<open>The character class of the splitting regular expression: these two code units.\<close>

definition isTerminal :: "jschar \<Rightarrow> bool" where
  "isTerminal c = (c = IDEOGRAPHIC_STOP \<or> c = FULL_STOP)"

text \<open>
  The code units removed by \<^verbatim>\<open>String.prototype.trim\<close>: ECMAScript WhiteSpace and
  LineTerminator.
\<close>

definition isWhite :: "jschar \<Rightarrow> bool" where
  "isWhite c = (c \<in> set [0x9, 0xA, 0xB, 0xC, 0xD, 0x20, 0xA0, 0x1680,
      0x2000, 0x2001, 0x2002, 0x2003, 0x2004, 0x2005, 0x2006, 0x2007, 0x2008, 0x2009, 0x200A,
      0x2028, 0x2029, 0x202F, 0x205F, 0x3000, 0xFEFF])"

definition trim :: "jsstring \<Rightarrow> jsstring" where
  "trim s = rev (dropWhile isWhite (rev (dropWhile isWhite s)))"

text \<open>
  \<^verbatim>\<open>text.split\<close> on a lookbehind for one terminal character: the pattern matches the
  empty string at every position that follows a terminal character. \<^verbatim>\<open>split\<close> tries
  the positions before the end of the string only, so the text is cut after every
  terminal character that is not the last code unit of the string, and the empty string
  gives the single piece \<^verbatim>\<open>""\<close>.
\<close>

fun splitAfterTerminal :: "jsstring \<Rightarrow> jsstring list" where
  "splitAfterTerminal [] = [[]]"
| "splitAfterTerminal (c # cs) =
     (if isTerminal c \<and> cs \<noteq> [] then [c] # splitAfterTerminal cs
      else (case splitAfterTerminal cs of
              [] \<Rightarrow> [[c]]
            | p # ps \<Rightarrow> (c # p) # ps))"

definition splitTextIntoSentences :: "jsstring \<Rightarrow> jsstring list" where
  "splitTextIntoSentences text =
     (let sentences = filter (\<lambda>sentence. length sentence > 0)
                        (map trim (splitAfterTerminal text))
      in if length sentences = 0 \<and> length (trim text) > 0 then [trim text]
         else sentences)"

text \<open>
  The inner loop of \<^verbatim>\<open>textToSpeech\<close>:
  \<^verbatim>\<open>for (let j = chunkEnd; j > MAX_CHUNK_LENGTH / 2; j--)\<close>, which sets \<^verbatim>\<open>chunkEnd\<close>
  to the first \<^verbatim>\<open>j\<close> whose \<^verbatim>\<open>remainingText.charAt(j - 1)\<close> is U+3002 and leaves it
  unchanged when there is none. The division is a floating-point one, so the loop
  condition is \<open>MAX_CHUNK_LENGTH < 2 * j\<close>. \<^verbatim>\<open>charAt\<close> out of range is the empty string.
\<close>

function scanBack :: "nat \<Rightarrow> jsstring \<Rightarrow> nat \<Rightarrow> nat \<Rightarrow> nat" where
  "scanBack mx remainingText chunkEnd j =
     (if mx < 2 * j then
        (if j - 1 < length remainingText \<and> remainingText ! (j - 1) = IDEOGRAPHIC_STOP
         then j
         else scanBack mx remainingText chunkEnd (j - 1))
      else chunkEnd)"
  by pat_completeness auto
termination
  by (relation "measure (\<lambda>(mx, r, e, j). j)") auto

declare scanBack.simps [simp del]

definition findChunkEnd :: "nat \<Rightarrow> jsstring \<Rightarrow> nat" where
  "findChunkEnd mx remainingText =
     (let chunkEnd = min (length remainingText) mx
      in scanBack mx remainingText chunkEnd chunkEnd)"

text \<open>
  The \<^verbatim>\<open>while (remainingText.length > 0)\<close> loop. With \<open>MAX_CHUNK_LENGTH = 0\<close> the
  remainder never shrinks and the loop does not end: the result is \<open>None\<close>.
\<close>

partial_function (option) cutLoop :: "nat \<Rightarrow> jsstring \<Rightarrow> jsstring list \<Rightarrow> jsstring list option" where
  "cutLoop mx remainingText allChunks =
     (if length remainingText > 0 then
        (let chunkEnd = findChunkEnd mx remainingText
         in cutLoop mx (drop chunkEnd remainingText) (allChunks @ [take chunkEnd remainingText]))
      else Some allChunks)"

declare cutLoop.simps [code]

text \<open>The \<^verbatim>\<open>for\<close> loop over the sentences, which fills \<^verbatim>\<open>allChunks\<close>.\<close>

fun chunkSentences :: "nat \<Rightarrow> jsstring list \<Rightarrow> jsstring list \<Rightarrow> jsstring list option" where
  "chunkSentences mx [] allChunks = Some allChunks"
| "chunkSentences mx (sentence # rest) allChunks =
     (if length sentence > mx then
        (case cutLoop mx sentence allChunks of
           None \<Rightarrow> None
         | Some allChunks' \<Rightarrow> chunkSentences mx rest allChunks')
      else chunkSentences mx rest (allChunks @ [sentence]))"

text \<open>The chunk list that \<^verbatim>\<open>textToSpeech\<close> hands to \<^verbatim>\<open>processChunksParallel\<close>.\<close>

definition chunkText :: "nat \<Rightarrow> jsstring \<Rightarrow> jsstring list option" where
  "chunkText mx text = chunkSentences mx (splitTextIntoSentences text) []"

subsection \<open>Properties of the chunking stage\<close>

lemma scanBack_le: "j \<le> e \<Longrightarrow> scanBack mx r e j \<le> e"
proof (induction mx r e j rule: scanBack.induct)
  case (1 mx r e j)
  show ?case
  proof (cases "mx < 2 * j")
    case True
    note lt = this
    show ?thesis
    proof (cases "j - 1 < length r \<and> r ! (j - 1) = IDEOGRAPHIC_STOP")
      case True
      with lt "1.prems" show ?thesis by (subst scanBack.simps) simp
    next
      case False
      have "scanBack mx r e (j - 1) \<le> e"
        using "1.IH" [OF lt False] "1.prems" by simp
      with lt False show ?thesis by (subst scanBack.simps) auto
    qed
  next
    case False
    then show ?thesis by (subst scanBack.simps) simp
  qed
qed

lemma scanBack_pos: "0 < e \<Longrightarrow> 0 < scanBack mx r e j"
proof (induction mx r e j rule: scanBack.induct)
  case (1 mx r e j)
  show ?case
  proof (cases "mx < 2 * j")
    case True
    note lt = this
    show ?thesis
    proof (cases "j - 1 < length r \<and> r ! (j - 1) = IDEOGRAPHIC_STOP")
      case True
      with lt show ?thesis by (subst scanBack.simps) auto
    next
      case False
      have "0 < scanBack mx r e (j - 1)"
        using "1.IH" [OF lt False] "1.prems" by simp
      with lt False show ?thesis by (subst scanBack.simps) auto
    qed
  next
    case False
    with "1.prems" show ?thesis by (subst scanBack.simps) simp
  qed
qed

lemma findChunkEnd_le_length: "findChunkEnd mx r \<le> length r"
  using scanBack_le [of "min (length r) mx" "min (length r) mx" mx r]
  by (simp add: findChunkEnd_def Let_def)

lemma findChunkEnd_le_max: "findChunkEnd mx r \<le> mx"
  using scanBack_le [of "min (length r) mx" "min (length r) mx" mx r]
  by (simp add: findChunkEnd_def Let_def)

lemma findChunkEnd_pos: "0 < mx \<Longrightarrow> r \<noteq> [] \<Longrightarrow> 0 < findChunkEnd mx r"
  using scanBack_pos [of "min (length r) mx" mx r "min (length r) mx"]
  by (simp add: findChunkEnd_def Let_def)

text \<open>
  The chunks that the loop cuts from one remainder, as a total function: the loop's result
  whenever \<open>MAX_CHUNK_LENGTH\<close> is positive (lemma \<open>cutLoop_cuts\<close>).
\<close>

function cuts :: "nat \<Rightarrow> jsstring \<Rightarrow> jsstring list" where
  "cuts mx r =
     (if r = [] \<or> mx = 0 then []
      else take (findChunkEnd mx r) r # cuts mx (drop (findChunkEnd mx r) r))"
  by pat_completeness auto
termination
  by (relation "measure (\<lambda>(mx, r). length r)") (auto simp: findChunkEnd_pos)

declare cuts.simps [simp del]

lemma cutLoop_cuts: "0 < mx \<Longrightarrow> cutLoop mx r acc = Some (acc @ cuts mx r)"
proof (induction mx r arbitrary: acc rule: cuts.induct)
  case (1 mx r)
  show ?case
  proof (cases "r = []")
    case True
    then show ?thesis by (subst cutLoop.simps, subst cuts.simps) simp
  next
    case False
    with "1.prems" have "cutLoop mx (drop (findChunkEnd mx r) r) (acc @ [take (findChunkEnd mx r) r])
        = Some ((acc @ [take (findChunkEnd mx r) r]) @ cuts mx (drop (findChunkEnd mx r) r))"
      using "1.IH" by simp
    with False "1.prems" show ?thesis
      by (subst cutLoop.simps, subst cuts.simps) (simp add: Let_def)
  qed
qed

lemma cutLoop_zero_aux: "cutLoop mx r acc = Some y \<Longrightarrow> mx = 0 \<longrightarrow> r = []"
proof (rule cutLoop.raw_induct [where P = "\<lambda>mx r acc y. mx = 0 \<longrightarrow> r = []"])
  fix f :: "nat \<Rightarrow> jsstring \<Rightarrow> jsstring list \<Rightarrow> jsstring list option"
  fix mx r acc y
  assume IH: "\<And>mx r acc y. f mx r acc = Some y \<Longrightarrow> mx = 0 \<longrightarrow> r = []"
  assume body: "(if 0 < length r
      then let chunkEnd = findChunkEnd mx r
           in f mx (drop chunkEnd r) (acc @ [take chunkEnd r])
      else Some acc) = Some y"
  show "mx = 0 \<longrightarrow> r = []"
  proof
    assume z: "mx = 0"
    show "r = []"
    proof (rule ccontr)
      assume ne: "r \<noteq> []"
      with body have "f mx (drop (findChunkEnd mx r) r) (acc @ [take (findChunkEnd mx r) r]) = Some y"
        by (simp add: Let_def)
      from IH [OF this] z have "drop (findChunkEnd mx r) r = []" by simp
      moreover have "findChunkEnd mx r = 0"
        using findChunkEnd_le_max [of mx r] z by simp
      ultimately show False using ne by simp
    qed
  qed
qed

lemma cutLoop_zero: "r \<noteq> [] \<Longrightarrow> cutLoop 0 r acc = None"
  using cutLoop_zero_aux [of 0 r acc] by (cases "cutLoop 0 r acc") auto

lemma concat_cuts: "0 < mx \<Longrightarrow> concat (cuts mx r) = r"
  by (induction mx r rule: cuts.induct) (subst cuts.simps, simp)

lemma cuts_length: "c \<in> set (cuts mx r) \<Longrightarrow> 0 < length c \<and> length c \<le> mx"
proof (induction mx r rule: cuts.induct)
  case (1 mx r)
  from "1.prems" have ne: "\<not> (r = [] \<or> mx = 0)"
    by (subst (asm) cuts.simps) (simp split: if_splits)
  from "1.prems" ne have "c = take (findChunkEnd mx r) r \<or> c \<in> set (cuts mx (drop (findChunkEnd mx r) r))"
    by (subst (asm) cuts.simps) simp
  then show ?case
  proof
    assume "c = take (findChunkEnd mx r) r"
    then show ?thesis
      using ne findChunkEnd_pos [of mx r] findChunkEnd_le_max [of mx r] by simp
  next
    assume "c \<in> set (cuts mx (drop (findChunkEnd mx r) r))"
    then show ?thesis using "1.IH" [OF ne] by simp
  qed
qed


definition chunksOf :: "nat \<Rightarrow> jsstring \<Rightarrow> jsstring list" where
  "chunksOf mx s = (if length s > mx then cuts mx s else [s])"

lemma chunkSentences_chunksOf:
  "0 < mx \<Longrightarrow> chunkSentences mx ss acc = Some (acc @ concat (map (chunksOf mx) ss))"
  by (induction ss arbitrary: acc) (simp_all add: chunksOf_def cutLoop_cuts)

lemma chunkSentences_zero:
  "chunkSentences 0 ss acc = Some cs \<Longrightarrow> \<forall>s\<in>set ss. s \<noteq> [] \<Longrightarrow> ss = []"
  by (cases ss) (simp_all add: cutLoop_zero)

lemma concat_chunksOf: "0 < mx \<Longrightarrow> concat (chunksOf mx s) = s"
  by (simp add: chunksOf_def concat_cuts)

lemma chunksOf_length: "c \<in> set (chunksOf mx s) \<Longrightarrow> s \<noteq> [] \<Longrightarrow> 0 < length c \<and> length c \<le> mx"
  using cuts_length [of c mx s] by (auto simp: chunksOf_def split: if_splits)

text \<open>
  \<open>weave gaps chunks\<close> writes the chunks one after the other with a gap before each
  and one after the last.
\<close>

fun weave :: "jsstring list \<Rightarrow> jsstring list \<Rightarrow> jsstring" where
  "weave (g # gs) (c # cs) = g @ c @ weave gs cs"
| "weave gs [] = concat gs"
| "weave [] cs = concat cs"

definition allWhite :: "jsstring \<Rightarrow> bool" where
  "allWhite s = list_all isWhite s"

text \<open>\<open>woven t cs\<close>: the text \<open>t\<close> is the chunks \<open>cs\<close> in order, with white space between them.\<close>

inductive woven :: "jsstring \<Rightarrow> jsstring list \<Rightarrow> bool" where
  woven_end: "allWhite g \<Longrightarrow> woven g []"
| woven_chunk: "allWhite g \<Longrightarrow> woven t cs \<Longrightarrow> woven (g @ c @ t) (c # cs)"

lemma allWhite_append: "allWhite (a @ b) = (allWhite a \<and> allWhite b)"
  by (simp add: allWhite_def)

lemma woven_gap: "woven t cs \<Longrightarrow> allWhite g \<Longrightarrow> woven (g @ t) cs"
proof (induction rule: woven.cases)
  case (woven_end g')
  then show ?case by (auto intro: woven.woven_end simp: allWhite_append)
next
  case (woven_chunk g' t' cs' c)
  have "woven ((g @ g') @ c @ t') (c # cs')"
    using woven_chunk by (intro woven.woven_chunk) (simp_all add: allWhite_append)
  with woven_chunk show ?case by simp
qed

lemma woven_append: "woven t1 cs1 \<Longrightarrow> woven t2 cs2 \<Longrightarrow> woven (t1 @ t2) (cs1 @ cs2)"
proof (induction rule: woven.induct)
  case (woven_end g)
  then show ?case by (simp add: woven_gap)
next
  case (woven_chunk g t cs c)
  have "woven (g @ c @ (t @ t2)) (c # (cs @ cs2))"
    using woven_chunk by (intro woven.woven_chunk) simp_all
  then show ?case by simp
qed

lemma woven_concat: "woven (concat cs) cs"
proof (induction cs)
  case Nil
  show ?case using woven_end [of "[]"] by (simp add: allWhite_def)
next
  case (Cons c cs)
  have "woven ([] @ c @ concat cs) (c # cs)"
    using Cons by (intro woven_chunk) (simp_all add: allWhite_def)
  then show ?case by simp
qed

lemma woven_weave:
  "woven t cs \<Longrightarrow> \<exists>gaps. length gaps = Suc (length cs) \<and> (\<forall>g\<in>set gaps. allWhite g) \<and> weave gaps cs = t"
proof (induction rule: woven.induct)
  case (woven_end g)
  have "length [g] = Suc (length ([]::jsstring list)) \<and> (\<forall>g'\<in>set [g]. allWhite g') \<and> weave [g] [] = g"
    using woven_end by simp
  then show ?case by blast
next
  case (woven_chunk g t cs c)
  then obtain gaps where gaps: "length gaps = Suc (length cs)" "\<forall>g\<in>set gaps. allWhite g" "weave gaps cs = t"
    by blast
  have "length (g # gaps) = Suc (length (c # cs)) \<and> (\<forall>g'\<in>set (g # gaps). allWhite g')
      \<and> weave (g # gaps) (c # cs) = g @ c @ t"
    using gaps woven_chunk.hyps(1) by simp
  then show ?case by blast
qed

lemma trim_decomp: "\<exists>l r. s = l @ trim s @ r \<and> allWhite l \<and> allWhite r"
proof -
  let ?d = "dropWhile isWhite s"
  have 1: "s = takeWhile isWhite s @ ?d" by simp
  have "rev ?d = takeWhile isWhite (rev ?d) @ dropWhile isWhite (rev ?d)" by simp
  then have "rev (rev ?d) = rev (takeWhile isWhite (rev ?d) @ dropWhile isWhite (rev ?d))"
    by (rule arg_cong)
  then have "?d = rev (dropWhile isWhite (rev ?d)) @ rev (takeWhile isWhite (rev ?d))"
    by (simp only: rev_rev_ident rev_append)
  then have 2: "?d = trim s @ rev (takeWhile isWhite (rev ?d))"
    by (simp only: trim_def)
  have 3: "allWhite (takeWhile isWhite s)"
    by (auto simp: allWhite_def list_all_iff dest: set_takeWhileD)
  have 4: "allWhite (rev (takeWhile isWhite (rev ?d)))"
    by (auto simp: allWhite_def list_all_iff dest: set_takeWhileD)
  from 1 2 have "s = takeWhile isWhite s @ trim s @ rev (takeWhile isWhite (rev ?d))"
    by metis
  with 3 4 show ?thesis by blast
qed

lemma dropWhile_all: "(\<forall>x\<in>set (dropWhile P s). P x) \<longleftrightarrow> (\<forall>x\<in>set s. P x)"
proof
  assume a: "\<forall>x\<in>set (dropWhile P s). P x"
  have "dropWhile P s = []"
  proof (rule ccontr)
    assume ne: "dropWhile P s \<noteq> []"
    then have "\<not> P (hd (dropWhile P s))" by (rule hd_dropWhile)
    moreover have "hd (dropWhile P s) \<in> set (dropWhile P s)" using ne by simp
    ultimately show False using a by blast
  qed
  then show "\<forall>x\<in>set s. P x" by (simp add: dropWhile_eq_Nil_conv)
next
  assume "\<forall>x\<in>set s. P x"
  then show "\<forall>x\<in>set (dropWhile P s). P x" by (auto dest: set_dropWhileD)
qed

lemma trim_empty_iff: "trim s = [] \<longleftrightarrow> allWhite s"
  by (simp add: trim_def allWhite_def list_all_iff dropWhile_eq_Nil_conv dropWhile_all)

lemma concat_splitAfterTerminal: "concat (splitAfterTerminal s) = s"
  by (induction s) (auto split: list.splits)

definition chunksOfPiece :: "nat \<Rightarrow> jsstring \<Rightarrow> jsstring list" where
  "chunksOfPiece mx p = (if trim p = [] then [] else chunksOf mx (trim p))"

lemma woven_piece: "0 < mx \<Longrightarrow> woven p (chunksOfPiece mx p)"
proof -
  assume mx: "0 < mx"
  obtain l r where d: "p = l @ trim p @ r" "allWhite l" "allWhite r"
    using trim_decomp by blast
  show ?thesis
  proof (cases "trim p = []")
    case True
    then show ?thesis by (simp add: chunksOfPiece_def trim_empty_iff woven_end)
  next
    case False
    have "woven (concat (chunksOf mx (trim p))) (chunksOf mx (trim p))"
      by (rule woven_concat)
    then have "woven (trim p) (chunksOf mx (trim p))"
      using mx by (simp add: concat_chunksOf)
    then have "woven (l @ trim p) (chunksOf mx (trim p))"
      using d(2) by (rule woven_gap)
    then have "woven ((l @ trim p) @ r) (chunksOf mx (trim p) @ [])"
      using woven_end [OF d(3)] by (rule woven_append)
    with d(1) False show ?thesis by (simp add: chunksOfPiece_def)
  qed
qed

lemma woven_pieces: "0 < mx \<Longrightarrow> woven (concat ps) (concat (map (chunksOfPiece mx) ps))"
proof (induction ps)
  case Nil
  show ?case using woven_end [of "[]"] by (simp add: allWhite_def)
next
  case (Cons p ps)
  then show ?case using woven_append [OF woven_piece [of mx p]] by simp
qed

lemma chunks_of_sentences:
  "concat (map (chunksOf mx) (filter (\<lambda>s. length s > 0) (map trim ps)))
     = concat (map (chunksOfPiece mx) ps)"
  by (induction ps) (simp_all add: chunksOfPiece_def)

lemma sentences_nonempty: "s \<in> set (splitTextIntoSentences text) \<Longrightarrow> s \<noteq> []"
  by (auto simp: splitTextIntoSentences_def Let_def split: if_splits)

lemma fallback_dead:
  "filter (\<lambda>s. length s > 0) (map trim (splitAfterTerminal text)) = [] \<Longrightarrow> trim text = []"
proof -
  assume e: "filter (\<lambda>s. length s > 0) (map trim (splitAfterTerminal text)) = []"
  then have "\<forall>p\<in>set (splitAfterTerminal text). allWhite p"
    by (auto simp: filter_empty_conv trim_empty_iff)
  then have "allWhite (concat (splitAfterTerminal text))"
    by (auto simp: allWhite_def list_all_iff)
  then show ?thesis by (simp add: concat_splitAfterTerminal trim_empty_iff)
qed

lemma sentences_eq:
  "splitTextIntoSentences text = filter (\<lambda>s. length s > 0) (map trim (splitAfterTerminal text))"
  using fallback_dead [of "text"] by (auto simp: splitTextIntoSentences_def Let_def)

lemma chunkText_eq:
  "0 < mx \<Longrightarrow> chunkText mx text = Some (concat (map (chunksOfPiece mx) (splitAfterTerminal text)))"
  using chunks_of_sentences [of mx "splitAfterTerminal text"]
  by (simp add: chunkText_def chunkSentences_chunksOf sentences_eq)

lemma chunkText_woven: "0 < mx \<Longrightarrow> chunkText mx text = Some cs \<Longrightarrow> woven text cs"
  using woven_pieces [of mx "splitAfterTerminal text"]
  by (simp add: chunkText_eq concat_splitAfterTerminal)

lemma chunkText_zero: "chunkText 0 text = Some cs \<Longrightarrow> cs = [] \<and> allWhite text"
proof -
  assume a: "chunkText 0 text = Some cs"
  then have ss: "splitTextIntoSentences text = []"
    using chunkSentences_zero [of "splitTextIntoSentences text" "[]" cs] sentences_nonempty [of _ "text"]
    by (auto simp: chunkText_def)
  with a have "cs = []" by (simp add: chunkText_def)
  moreover have "allWhite text"
    using ss fallback_dead [of "text"] by (simp add: sentences_eq trim_empty_iff)
  ultimately show ?thesis by simp
qed

lemma chunkText_white: "allWhite text \<Longrightarrow> chunkText mx text = Some []"
proof -
  assume w: "allWhite text"
  have "\<forall>p\<in>set (splitAfterTerminal text). allWhite p"
  proof
    fix p assume "p \<in> set (splitAfterTerminal text)"
    then have "set p \<subseteq> set (concat (splitAfterTerminal text))" by auto
    with w show "allWhite p"
      by (auto simp: concat_splitAfterTerminal allWhite_def list_all_iff)
  qed
  then have "filter (\<lambda>s. length s > 0) (map trim (splitAfterTerminal text)) = []"
    by (auto simp: filter_empty_conv trim_empty_iff)
  then show ?thesis by (simp add: chunkText_def sentences_eq)
qed

lemma chunkText_lengths:
  "0 < mx \<Longrightarrow> chunkText mx text = Some cs \<Longrightarrow> c \<in> set cs \<Longrightarrow> 0 < length c \<and> length c \<le> mx"
proof -
  assume mx: "0 < mx" and cs: "chunkText mx text = Some cs" and c: "c \<in> set cs"
  from mx cs have "cs = concat (map (chunksOf mx) (splitTextIntoSentences text))"
    by (simp add: chunkText_def chunkSentences_chunksOf)
  with c obtain s where s: "s \<in> set (splitTextIntoSentences text)" "c \<in> set (chunksOf mx s)"
    by auto
  then show ?thesis using chunksOf_length sentences_nonempty by blast
qed

text \<open>
  Claim C3. For every input text the chunking stage (sentence split, then long-sentence
  cutting) gives an ordered list of chunks which, written one after the other with
  white space only in the gaps, is the original text; every chunk has at most
  \<open>MAX_CHUNK_LENGTH\<close> code units; a text of white space only (the empty text
  among them) gives the empty list. The stage returns whenever \<open>MAX_CHUNK_LENGTH\<close> is
  positive, and the properties hold for every list it returns.
\<close>

theorem chunkText_reconstructs:
  "(0 < mx \<longrightarrow> chunkText mx text \<noteq> None) \<and>
   (\<forall>cs. chunkText mx text = Some cs \<longrightarrow>
      (\<exists>gaps. length gaps = Suc (length cs) \<and> list_all allWhite gaps \<and> weave gaps cs = text) \<and>
      list_all (\<lambda>c. length c \<le> mx) cs) \<and>
   (allWhite text \<longrightarrow> chunkText mx text = Some [])"
proof (intro conjI allI impI)
  assume "0 < mx"
  then show "chunkText mx text \<noteq> None" by (simp add: chunkText_eq)
next
  fix cs assume cs: "chunkText mx text = Some cs"
  have w: "woven text cs"
  proof (cases "mx = 0")
    case True
    with cs show ?thesis using chunkText_zero [of "text" cs] by (simp add: woven_end)
  next
    case False
    with cs show ?thesis by (simp add: chunkText_woven)
  qed
  from woven_weave [OF w]
  show "\<exists>gaps. length gaps = Suc (length cs) \<and> list_all allWhite gaps \<and> weave gaps cs = text"
    by (simp add: list_all_iff)
  show "list_all (\<lambda>c. length c \<le> mx) cs"
  proof (cases "mx = 0")
    case True
    with cs show ?thesis using chunkText_zero [of "text" cs] by simp
  next
    case False
    with cs show ?thesis using chunkText_lengths [of mx "text" cs] by (auto simp: list_all_iff)
  qed
next
  assume "allWhite text"
  then show "chunkText mx text = Some []" by (rule chunkText_white)
qed

theorem chunkText_reconstructs_witness:
  "chunkText 3 [0x20, 0x61, 0x62, 0x20, 0x63, 0x64, 0x20] = Some [[0x61, 0x62, 0x20], [0x63, 0x64]] \<and>
   (\<exists>gaps. length gaps = 3 \<and> list_all allWhite gaps \<and>
      weave gaps [[0x61, 0x62, 0x20], [0x63, 0x64]] = [0x20, 0x61, 0x62, 0x20, 0x63, 0x64, 0x20]) \<and>
   chunkText 3 [0x20, 0x9] = Some []"
proof -
  have e: "chunkText 3 [0x20, 0x61, 0x62, 0x20, 0x63, 0x64, 0x20] = Some [[0x61, 0x62, 0x20], [0x63, 0x64]]"
    by code_simp
  have w: "allWhite [0x20, 0x9]" by code_simp
  from chunkText_reconstructs [of 3 "[0x20, 0x61, 0x62, 0x20, 0x63, 0x64, 0x20]"] e
  have "\<exists>gaps. length gaps = Suc (length [[0x61, 0x62, 0x20], [0x63, 0x64::jschar]]) \<and> list_all allWhite gaps \<and>
      weave gaps [[0x61, 0x62, 0x20], [0x63, 0x64]] = [0x20, 0x61, 0x62, 0x20, 0x63, 0x64, 0x20]"
    by blast
  moreover from chunkText_reconstructs [of 3 "[0x20, 0x9]"] w
  have "chunkText 3 [0x20, 0x9] = Some []" by blast
  ultimately show ?thesis using e by (simp add: eval_nat_numeral)
qed

subsection \<open>Cutting a long sentence\<close>























section \<open>The speech pipeline\<close>

subsection \<open>Data\<close>

text \<open>The \<^verbatim>\<open>DialogueData\<close> interface: a turn, with an optional speaker.\<close>

record dialogueData =
  d_text :: jsstring
  d_speaker :: "int option"

text \<open>
  A JSON value, and the query descriptor of the engine: a JavaScript object, that is its
  keys in insertion order, each with a value.
\<close>

datatype json = JNumber rat | JString string | JBool bool | JNull
  | JArray "json list" | JObject "(string \<times> json) list"

type_synonym voicevoxQueryData = "(string \<times> json) list"

text \<open>The constants read from the environment at startup.\<close>

record config =
  DEFAULT_SPEAKER :: int
  VOLUME_SCALE :: json
  SPEED_SCALE :: json
  PRE_PHONEME_LENGTH :: json
  POST_PHONEME_LENGTH :: json
  INTONATION_SCALE :: json
  MAX_CHUNK_LENGTH :: nat

text \<open>
  A temporary audio file: the serial number of the synthesis call that wrote it (the
  source names it after the clock; the model takes the names to be distinct) and the
  text whose audio it holds.
\<close>

record wav =
  serial :: nat
  spoken :: jsstring

text \<open>The \<^verbatim>\<open>SynthesisResult\<close> interface.\<close>

record synthesisResult =
  success :: bool
  tempFile :: "wav option"

text \<open>The tool requests that reach the player: \<^verbatim>\<open>speak\<close> and \<^verbatim>\<open>stop_speak\<close>.\<close>

datatype request = Speak "dialogueData list" | StopSpeak

text \<open>
  What happens, in order: the pushes and shifts of the queue, the end of a turn list,
  the begin and end of a turn, the requests to the engine, the calls of \<^verbatim>\<open>playAudio\<close>,
  the platform playback commands, the deletions of files, and the stop requests handled.
\<close>

datatype event =
    Enqueue "dialogueData list"
  | Dequeue "dialogueData list"
  | ConversationEnd bool
  | TurnBegin jsstring int
  | TurnEnd bool
  | AudioQuery jsstring int
  | Synthesis voicevoxQueryData int
  | PlayAttempt wav
  | PlayCommand wav
  | Unlink wav
  | StopRequest

text \<open>
  The world outside the program. The \<open>n\<close>-th synthesis call gets the answers
  \<open>audio_query env n\<close> (\<open>None\<close>: the request failed) and \<open>synthesis env n\<close> (whether
  audio came back); the \<open>n\<close>-th platform playback command ends with success
  \<open>playCommand env n\<close>. Nothing is assumed of the three.
\<close>

record env =
  audio_query :: "nat \<Rightarrow> jsstring \<Rightarrow> int \<Rightarrow> voicevoxQueryData option"
  synthesis :: "nat \<Rightarrow> voicevoxQueryData \<Rightarrow> int \<Rightarrow> bool"
  playCommand :: "nat \<Rightarrow> bool"

text \<open>
  The state of the program: the global flag \<^verbatim>\<open>isPlayingAudio\<close>, the fields of the
  \<^verbatim>\<open>AudioPlayer\<close>, the temporary files that exist, and the trace. JavaScript runs one
  handler at a time: a tool request is handled only while the running code waits for
  input or output. \<open>inbox\<close> lists, for each such wait to come, the requests handled
  during it. \<open>overlapped\<close> records that a second drain of the queue was started during a
  wait of the first, which the model does not follow; it is shown below never to happen
  in a drain started on a player at rest.
\<close>

record world =
  isPlayingAudio :: bool
  queue :: "dialogueData list list"
  isProcessing :: bool
  initialized :: bool
  files :: "wav set"
  inbox :: "request list list"
  synthCalls :: nat
  playCalls :: nat
  trace :: "event list"
  overlapped :: bool

definition emit :: "event \<Rightarrow> world \<Rightarrow> world" where
  "emit e s = s\<lparr>trace := trace s @ [e]\<rparr>"

subsection \<open>Requests handled during a wait\<close>

text \<open>
  \<^verbatim>\<open>AudioPlayer.stopAudio\<close>: clear the flag, empty the queue, send the kill command
  without waiting for it. What the kill does to a running playback command is part of
  \<open>playCommand\<close>.
\<close>

definition stopAudio :: "world \<Rightarrow> world" where
  "stopAudio s = emit StopRequest (s\<lparr>isPlayingAudio := False, queue := []\<rparr>)"

text \<open>
  A request handled while a drain waits. The \<^verbatim>\<open>speak\<close> handler refuses an empty list
  and calls \<^verbatim>\<open>addToQueue\<close>, which pushes the list and starts a drain unless
  \<^verbatim>\<open>isProcessing\<close> is set.
\<close>

fun deliver :: "request \<Rightarrow> world \<Rightarrow> world" where
  "deliver StopSpeak s = stopAudio s"
| "deliver (Speak dialogues) s =
     (if length dialogues = 0 then s
      else let s1 = emit (Enqueue dialogues) (s\<lparr>queue := queue s @ [dialogues]\<rparr>)
           in if \<not> isProcessing s1 then s1\<lparr>overlapped := True\<rparr> else s1)"

text \<open>One wait (an \<^verbatim>\<open>await\<close> on input or output): the requests of its turn are handled.\<close>

definition suspend :: "world \<Rightarrow> world" where
  "suspend s =
     (case inbox s of
        [] \<Rightarrow> s
      | requests # rest \<Rightarrow> fold deliver requests (s\<lparr>inbox := rest\<rparr>))"

subsection \<open>Synthesis\<close>

text \<open>
  The five assignments to \<^verbatim>\<open>queryData\<close>: a present key keeps its place, a new one is
  added last.
\<close>

definition overrideQuery :: "config \<Rightarrow> voicevoxQueryData \<Rightarrow> voicevoxQueryData" where
  "overrideQuery cfg queryData =
     AList.update ''intonationScale'' (INTONATION_SCALE cfg)
       (AList.update ''postPhonemeLength'' (POST_PHONEME_LENGTH cfg)
         (AList.update ''prePhonemeLength'' (PRE_PHONEME_LENGTH cfg)
           (AList.update ''speedScale'' (SPEED_SCALE cfg)
             (AList.update ''volumeScale'' (VOLUME_SCALE cfg) queryData))))"

text \<open>
  \<^verbatim>\<open>synthesizeSentence\<close>, with the audio filter off (\<^verbatim>\<open>ENABLE_FFMPEG\<close> unset). The call
  runs beside its caller; the model writes its requests to the trace when the call is
  made, and the caller's \<^verbatim>\<open>await\<close> is a \<open>suspend\<close> of its own. Any failure of a request
  is caught and gives \<^verbatim>\<open>{ success: false }\<close>.
\<close>

definition synthesizeSentence ::
  "env \<Rightarrow> config \<Rightarrow> jsstring \<Rightarrow> int \<Rightarrow> world \<Rightarrow> synthesisResult \<times> world" where
  "synthesizeSentence env cfg txt speaker s =
     (let n = synthCalls s;
          s1 = emit (AudioQuery txt speaker) (s\<lparr>synthCalls := Suc n\<rparr>)
      in case audio_query env n txt speaker of
           None \<Rightarrow> (\<lparr>success = False, tempFile = None\<rparr>, s1)
         | Some queryData \<Rightarrow>
             (let submitted = overrideQuery cfg queryData;
                  s2 = emit (Synthesis submitted speaker) s1
              in if synthesis env n submitted speaker then
                   (let file = \<lparr>serial = n, spoken = txt\<rparr>
                    in (\<lparr>success = True, tempFile = Some file\<rparr>, s2\<lparr>files := insert file (files s2)\<rparr>))
                 else (\<lparr>success = False, tempFile = None\<rparr>, s2)))"

subsection \<open>Playback\<close>

text \<open>
  \<^verbatim>\<open>fs.unlinkSync\<close> throws when the file is not there; in \<^verbatim>\<open>playAudio\<close> the throw is
  caught and gives \<^verbatim>\<open>{ success: false }\<close>.
\<close>

definition unlinkSync :: "wav \<Rightarrow> world \<Rightarrow> world option" where
  "unlinkSync file s =
     (if file \<in> files s then Some (emit (Unlink file) (s\<lparr>files := files s - {file}\<rparr>))
      else None)"

text \<open>\<^verbatim>\<open>AudioPlayer.initialize\<close>, which \<^verbatim>\<open>main\<close> calls before it serves requests.\<close>

definition initialize :: "world \<Rightarrow> world" where
  "initialize s =
     (if initialized s then s else s\<lparr>initialized := True, isPlayingAudio := False\<rparr>)"

text \<open>
  \<^verbatim>\<open>AudioPlayer.playAudio\<close>. The result is the \<^verbatim>\<open>success\<close> field. The call is written to
  the trace as it is made. The wait is the one for the platform command.
\<close>

definition playAudio :: "env \<Rightarrow> wav \<Rightarrow> world \<Rightarrow> bool \<times> world" where
  "playAudio env file s0 =
     (let s = (if \<not> initialized s0 then initialize (emit (PlayAttempt file) s0)
               else emit (PlayAttempt file) s0)
      in if \<not> isPlayingAudio s then
           (case unlinkSync file s of
              None \<Rightarrow> (False, s)
            | Some s1 \<Rightarrow> (False, s1))
         else
           (let n = playCalls s;
                s1 = suspend (emit (PlayCommand file) (s\<lparr>playCalls := Suc n\<rparr>))
            in if playCommand env n then
                 (case unlinkSync file s1 of
                    None \<Rightarrow> (False, s1)
                  | Some s2 \<Rightarrow> (True, s2))
               else (False, s1)))"

subsection \<open>The pipeline scheduler\<close>

definition MAX_PARALLEL :: nat where
  "MAX_PARALLEL = 3"

text \<open>
  The loop that starts the synthesis of the chunks after the first,
  \<^verbatim>\<open>for (let i = 1; i < Math.min(chunks.length, MAX_PARALLEL); i++)\<close>; the argument is the
  list of the indices still to come. The results are in the order of the calls, as
  \<^verbatim>\<open>Promise.allSettled\<close> gives them, whichever call ends first.
\<close>

fun preload ::
  "env \<Rightarrow> config \<Rightarrow> jsstring list \<Rightarrow> int \<Rightarrow> nat list \<Rightarrow> world \<Rightarrow> synthesisResult list \<times> world" where
  "preload env cfg chunks speaker [] s = ([], s)"
| "preload env cfg chunks speaker (i # rest) s =
     (case synthesizeSentence env cfg (chunks ! i) speaker s of
        (result, s1) \<Rightarrow>
          (case preload env cfg chunks speaker rest s1 of
             (results, s2) \<Rightarrow> (result # results, s2)))"

text \<open>
  The loop \<^verbatim>\<open>for (const preloadedResult of preloadedResults)\<close>. The array grows while the
  loop runs and the iterator reads its length anew at every step: \<open>pos\<close> is the
  iterator's index. The result is the array, \<^verbatim>\<open>currentIndex\<close> and \<^verbatim>\<open>hasError\<close> as the
  loop leaves them.
\<close>

function lookahead ::
  "env \<Rightarrow> config \<Rightarrow> jsstring list \<Rightarrow> int \<Rightarrow> nat \<Rightarrow> synthesisResult list \<Rightarrow> nat \<Rightarrow> bool \<Rightarrow> world
     \<Rightarrow> (synthesisResult list \<times> nat \<times> bool) \<times> world" where
  "lookahead env cfg chunks speaker pos preloadedResults currentIndex hasError s =
     (if pos < length preloadedResults then
        (case tempFile (preloadedResults ! pos) of
           None \<Rightarrow> ((preloadedResults, currentIndex, hasError), s)
         | Some file \<Rightarrow>
             if \<not> isPlayingAudio s then ((preloadedResults, currentIndex, hasError), s)
             else if currentIndex + length preloadedResults < length chunks then
               (case synthesizeSentence env cfg
                       (chunks ! (currentIndex + length preloadedResults)) speaker s of
                  (nextSynthResult, s1) \<Rightarrow>
                    (case playAudio env file s1 of
                       (playResult, s2) \<Rightarrow>
                         if success nextSynthResult \<and> tempFile nextSynthResult \<noteq> None then
                           lookahead env cfg chunks speaker (pos + 1)
                             (preloadedResults @ [nextSynthResult]) (currentIndex + 1)
                             (hasError \<or> \<not> playResult) (suspend s2)
                         else
                           lookahead env cfg chunks speaker (pos + 1) preloadedResults
                             (currentIndex + 1) (hasError \<or> \<not> playResult) (suspend s2)))
             else
               (case playAudio env file s of
                  (playResult, s2) \<Rightarrow>
                    lookahead env cfg chunks speaker (pos + 1) preloadedResults
                      (currentIndex + 1) (hasError \<or> \<not> playResult) s2))
      else ((preloadedResults, currentIndex, hasError), s))"
  by pat_completeness auto
termination
  by (relation "measure (\<lambda>(env, cfg, chunks, speaker, pos, pre, ci, he, s).
        (length pre - pos) + (length chunks - (ci + length pre)))") auto

declare lookahead.simps [simp del]

text \<open>
  The loop \<^verbatim>\<open>while (currentIndex + preloadedResults.length < chunks.length)\<close>, which no
  longer changes the array: \<open>n\<close> is its length.
\<close>

function sequential ::
  "env \<Rightarrow> config \<Rightarrow> jsstring list \<Rightarrow> int \<Rightarrow> nat \<Rightarrow> nat \<Rightarrow> bool \<Rightarrow> world \<Rightarrow> bool \<times> world" where
  "sequential env cfg chunks speaker n currentIndex hasError s =
     (if currentIndex + n < length chunks then
        (if \<not> isPlayingAudio s then (hasError, s)
         else
           (case synthesizeSentence env cfg (chunks ! (currentIndex + n)) speaker s of
              (synthResult, s1) \<Rightarrow>
                if \<not> isPlayingAudio (suspend s1) then (hasError, suspend s1)
                else
                  (case (if success synthResult then tempFile synthResult else None) of
                     None \<Rightarrow>
                       sequential env cfg chunks speaker n (currentIndex + 1) True (suspend s1)
                   | Some file \<Rightarrow>
                       (case playAudio env file (suspend s1) of
                          (playResult, s2) \<Rightarrow>
                            sequential env cfg chunks speaker n (currentIndex + 1)
                              (hasError \<or> \<not> playResult) s2))))
      else (hasError, s))"
  by pat_completeness auto
termination
  by (relation "measure (\<lambda>(env, cfg, chunks, speaker, n, ci, he, s). length chunks - (ci + n))") auto

declare sequential.simps [simp del]

text \<open>\<^verbatim>\<open>processChunksParallel\<close>. The result is the \<^verbatim>\<open>success\<close> field.\<close>

definition processChunksParallel ::
  "env \<Rightarrow> config \<Rightarrow> jsstring list \<Rightarrow> int \<Rightarrow> world \<Rightarrow> bool \<times> world" where
  "processChunksParallel env cfg chunks speaker s =
     (if length chunks = 0 then (True, s)
      else
        (case synthesizeSentence env cfg (chunks ! 0) speaker s of
           (currentSynthResult, s1) \<Rightarrow>
             (case (if success currentSynthResult then tempFile currentSynthResult else None) of
                None \<Rightarrow> (False, suspend s1)
              | Some file \<Rightarrow>
                  (case preload env cfg chunks speaker [1..<min (length chunks) MAX_PARALLEL]
                          (suspend s1) of
                     (results, s2) \<Rightarrow>
                       (case playAudio env file (if results = [] then s2 else suspend s2) of
                          (playResult, s3) \<Rightarrow>
                            (case lookahead env cfg chunks speaker 0 (filter success results) 1
                                    (list_ex (\<lambda>r. \<not> success r) results \<or> \<not> playResult) s3 of
                               ((preloadedResults, currentIndex, hasError), s4) \<Rightarrow>
                                 (case sequential env cfg chunks speaker (length preloadedResults)
                                         currentIndex hasError s4 of
                                    (hasError', s5) \<Rightarrow> (\<not> hasError', s5))))))))"

subsection \<open>Turns, turn lists and the queue\<close>

text \<open>
  \<^verbatim>\<open>textToSpeech\<close>: chunk the text and run the scheduler. \<open>None\<close>: the chunking does not
  return.
\<close>

definition textToSpeech ::
  "env \<Rightarrow> config \<Rightarrow> jsstring \<Rightarrow> int \<Rightarrow> world \<Rightarrow> (bool \<times> world) option" where
  "textToSpeech env cfg txt speaker s =
     (case chunkText (MAX_CHUNK_LENGTH cfg) txt of
        None \<Rightarrow> None
      | Some allChunks \<Rightarrow>
          (case processChunksParallel env cfg allChunks speaker (emit (TurnBegin txt speaker) s) of
             (result, s1) \<Rightarrow> Some (result, emit (TurnEnd result) s1)))"

text \<open>The loop of \<^verbatim>\<open>conversationToSpeech\<close> over the turns still to come.\<close>

fun conversationLoop ::
  "env \<Rightarrow> config \<Rightarrow> dialogueData list \<Rightarrow> world \<Rightarrow> (bool \<times> world) option" where
  "conversationLoop env cfg [] s = Some (True, s\<lparr>isPlayingAudio := False\<rparr>)"
| "conversationLoop env cfg (dialogue # rest) s =
     (if \<not> isPlayingAudio s then Some (False, s)
      else
        (case textToSpeech env cfg (d_text dialogue)
                (case d_speaker dialogue of None \<Rightarrow> DEFAULT_SPEAKER cfg | Some speaker \<Rightarrow> speaker) s of
           None \<Rightarrow> None
         | Some (result, s1) \<Rightarrow>
             if \<not> result then Some (False, s1\<lparr>isPlayingAudio := False\<rparr>)
             else conversationLoop env cfg rest s1))"

definition conversationToSpeech ::
  "env \<Rightarrow> config \<Rightarrow> dialogueData list \<Rightarrow> world \<Rightarrow> (bool \<times> world) option" where
  "conversationToSpeech env cfg dialogues s =
     conversationLoop env cfg dialogues (s\<lparr>isPlayingAudio := True\<rparr>)"

subsection \<open>What a step leaves alone\<close>

lemma emit_fields [simp]:
  "isPlayingAudio (emit e s) = isPlayingAudio s" "queue (emit e s) = queue s"
  "isProcessing (emit e s) = isProcessing s" "initialized (emit e s) = initialized s"
  "files (emit e s) = files s" "inbox (emit e s) = inbox s"
  "synthCalls (emit e s) = synthCalls s" "playCalls (emit e s) = playCalls s"
  "overlapped (emit e s) = overlapped s" "trace (emit e s) = trace s @ [e]"
  by (simp_all add: emit_def)

fun isQueueEvent :: "event \<Rightarrow> bool" where
  "isQueueEvent (Enqueue ds) = True"
| "isQueueEvent StopRequest = True"
| "isQueueEvent e = False"


fun isPlayEvent :: "event \<Rightarrow> bool" where
  "isPlayEvent (PlayCommand f) = True"
| "isPlayEvent e = False"

lemma deliver_fields [simp]:
  "isProcessing (deliver r s) = isProcessing s" "initialized (deliver r s) = initialized s"
  "files (deliver r s) = files s" "inbox (deliver r s) = inbox s"
  "synthCalls (deliver r s) = synthCalls s" "playCalls (deliver r s) = playCalls s"
  by (cases r; simp add: stopAudio_def Let_def)+

lemma deliver_overlapped: "isProcessing s \<Longrightarrow> overlapped (deliver r s) = overlapped s"
  by (cases r) (simp_all add: stopAudio_def Let_def)

lemma deliver_flag: "isPlayingAudio (deliver r s) \<Longrightarrow> isPlayingAudio s"
  by (cases r) (simp_all add: stopAudio_def Let_def split: if_splits)

lemma deliver_trace:
  "\<exists>new. trace (deliver r s) = trace s @ new \<and> list_all isQueueEvent new \<and>
     (StopRequest \<in> set new \<longrightarrow> \<not> isPlayingAudio (deliver r s))"
  by (cases r) (auto simp: stopAudio_def Let_def)

lemma fold_deliver_fields [simp]:
  "isProcessing (fold deliver rs s) = isProcessing s" "initialized (fold deliver rs s) = initialized s"
  "files (fold deliver rs s) = files s" "inbox (fold deliver rs s) = inbox s"
  "synthCalls (fold deliver rs s) = synthCalls s" "playCalls (fold deliver rs s) = playCalls s"
  by (induction rs arbitrary: s; simp)+

lemma fold_deliver_overlapped:
  "isProcessing s \<Longrightarrow> overlapped (fold deliver rs s) = overlapped s"
  by (induction rs arbitrary: s) (simp_all add: deliver_overlapped)

lemma fold_deliver_flag: "isPlayingAudio (fold deliver rs s) \<Longrightarrow> isPlayingAudio s"
  by (induction rs arbitrary: s) (auto dest: deliver_flag)

lemma fold_deliver_trace:
  "\<exists>new. trace (fold deliver rs s) = trace s @ new \<and> list_all isQueueEvent new \<and>
     (StopRequest \<in> set new \<longrightarrow> \<not> isPlayingAudio (fold deliver rs s))"
proof (induction rs arbitrary: s)
  case Nil
  show ?case by simp
next
  case (Cons r rs)
  obtain n1 where n1: "trace (deliver r s) = trace s @ n1" "list_all isQueueEvent n1"
    "StopRequest \<in> set n1 \<longrightarrow> \<not> isPlayingAudio (deliver r s)"
    using deliver_trace by blast
  obtain n2 where n2: "trace (fold deliver rs (deliver r s)) = trace (deliver r s) @ n2"
    "list_all isQueueEvent n2"
    "StopRequest \<in> set n2 \<longrightarrow> \<not> isPlayingAudio (fold deliver rs (deliver r s))"
    using Cons by blast
  have "trace (fold deliver (r # rs) s) = trace s @ (n1 @ n2)" using n1 n2 by simp
  moreover have "list_all isQueueEvent (n1 @ n2)" using n1 n2 by simp
  moreover have "StopRequest \<in> set (n1 @ n2) \<longrightarrow> \<not> isPlayingAudio (fold deliver (r # rs) s)"
    using n1 n2 fold_deliver_flag [of rs "deliver r s"] by auto
  ultimately show ?case by blast
qed

lemma suspend_fields [simp]:
  "isProcessing (suspend s) = isProcessing s" "initialized (suspend s) = initialized s"
  "files (suspend s) = files s"
  "synthCalls (suspend s) = synthCalls s" "playCalls (suspend s) = playCalls s"
  by (simp_all add: suspend_def split: list.splits)

lemma suspend_overlapped: "isProcessing s \<Longrightarrow> overlapped (suspend s) = overlapped s"
  by (simp add: suspend_def fold_deliver_overlapped split: list.splits)


lemma suspend_trace:
  "\<exists>new. trace (suspend s) = trace s @ new \<and> list_all isQueueEvent new \<and>
     (StopRequest \<in> set new \<longrightarrow> \<not> isPlayingAudio (suspend s))"
proof (cases "inbox s")
  case Nil
  then show ?thesis by (simp add: suspend_def)
next
  case (Cons rs rest)
  with fold_deliver_trace [of rs "s\<lparr>inbox := rest\<rparr>"] show ?thesis
    by (simp add: suspend_def)
qed

lemma suspend_inbox:
  "suspend s = s \<or> length (inbox (suspend s)) < length (inbox s)"
  by (cases "inbox s") (simp_all add: suspend_def)

lemma synthesizeSentence_fields:
  "synthesizeSentence env cfg t sp s = (r, s') \<Longrightarrow>
   isPlayingAudio s' = isPlayingAudio s \<and> queue s' = queue s \<and> isProcessing s' = isProcessing s \<and>
   initialized s' = initialized s \<and> inbox s' = inbox s \<and> overlapped s' = overlapped s \<and>
   playCalls s' = playCalls s"
  by (auto simp: synthesizeSentence_def Let_def split: option.splits if_splits)


lemma synthesizeSentence_file:
  "synthesizeSentence env cfg t sp s = (r, s') \<Longrightarrow> tempFile r = Some f \<Longrightarrow>
   spoken f = t \<and> f \<in> files s' \<and> success r"
  by (auto simp: synthesizeSentence_def Let_def split: option.splits if_splits)

lemma synthesizeSentence_files:
  "synthesizeSentence env cfg t sp s = (r, s') \<Longrightarrow> files s \<subseteq> files s'"
  by (auto simp: synthesizeSentence_def Let_def split: option.splits if_splits)

subsection \<open>Relations kept by every step of a run\<close>

text \<open>
  A run of the scheduler is built from waits, synthesis calls and plays, and carries the
  variable \<^verbatim>\<open>hasError\<close> along. A relation between pairs of \<^verbatim>\<open>hasError\<close> and the world
  that is reflexive and transitive and holds across each of these steps holds across
  the loops and across the whole run. The steps of a run are these: a synthesis call is
  for a chunk of the run and for its speaker; a file handed to \<^verbatim>\<open>playAudio\<close> holds the
  audio of a chunk of the run, and either the flag is set (the loops test it just before
  the call) or the file exists (the first play).
\<close>

definition loopOutcome :: "(synthesisResult list \<times> nat \<times> bool) \<times> world \<Rightarrow> bool \<times> world" where
  "loopOutcome x = (snd (snd (fst x)), snd x)"

definition ofChunks :: "jsstring list \<Rightarrow> synthesisResult \<Rightarrow> bool" where
  "ofChunks chunks r = (case tempFile r of None \<Rightarrow> True | Some f \<Rightarrow> spoken f \<in> set chunks)"

lemma synthesizeSentence_ofChunks:
  "synthesizeSentence env cfg t sp s = (r, s') \<Longrightarrow> t \<in> set chunks \<Longrightarrow> ofChunks chunks r"
  by (auto simp: ofChunks_def split: option.splits dest: synthesizeSentence_file)

lemma preload_results:
  assumes "\<forall>i\<in>set ixs. i < length chunks"
    and "preload env cfg chunks speaker ixs s = (rs, s')"
  shows "list_all (ofChunks chunks) rs \<and> files s \<subseteq> files s'"
  using assms
proof (induction ixs arbitrary: s rs s')
  case Nil
  then show ?case by simp
next
  case (Cons i rest)
  obtain r s1 where a: "synthesizeSentence env cfg (chunks ! i) speaker s = (r, s1)"
    by (cases "synthesizeSentence env cfg (chunks ! i) speaker s")
  obtain rs1 s2 where b: "preload env cfg chunks speaker rest s1 = (rs1, s2)"
    by (cases "preload env cfg chunks speaker rest s1")
  from Cons.prems(2) a b have e: "rs = r # rs1" "s' = s2" by simp_all
  have m: "chunks ! i \<in> set chunks" using Cons.prems(1) by simp
  have "list_all (ofChunks chunks) rs1 \<and> files s1 \<subseteq> files s2"
    using Cons.IH [OF _ b] Cons.prems(1) by simp
  with synthesizeSentence_ofChunks [OF a m] synthesizeSentence_files [OF a] e
  show ?case by auto
qed

lemma preload_rel:
  assumes refl: "\<And>x. R x x" and trans: "\<And>a b c. R a b \<Longrightarrow> R b c \<Longrightarrow> R a c"
    and syn: "\<And>h txt s. txt \<in> set chunks \<Longrightarrow>
      R (h, s) (h, snd (synthesizeSentence env cfg txt speaker s))"
    and ixs: "\<forall>i\<in>set ixs. i < length chunks"
  shows "R (h, s) (h, snd (preload env cfg chunks speaker ixs s))"
  using ixs
proof (induction ixs arbitrary: s)
  case Nil
  show ?case by (simp add: refl)
next
  case (Cons i rest)
  obtain r s1 where a: "synthesizeSentence env cfg (chunks ! i) speaker s = (r, s1)"
    by (cases "synthesizeSentence env cfg (chunks ! i) speaker s")
  obtain rs s2 where b: "preload env cfg chunks speaker rest s1 = (rs, s2)"
    by (cases "preload env cfg chunks speaker rest s1")
  have "chunks ! i \<in> set chunks" using Cons.prems by simp
  from syn [OF this, where h = h and s = s] have "R (h, s) (h, s1)" using a by simp
  moreover have "R (h, s1) (h, s2)" using Cons.IH [of s1] Cons.prems b by simp
  ultimately have "R (h, s) (h, s2)" by (rule trans)
  with a b show ?case by simp
qed

lemma lookahead_rel:
  assumes refl: "\<And>x. R x x" and trans: "\<And>a b c. R a b \<Longrightarrow> R b c \<Longrightarrow> R a c"
    and sus: "\<And>h s. R (h, s) (h, suspend s)"
    and syn: "\<And>h txt s. txt \<in> set chunks \<Longrightarrow>
      R (h, s) (h, snd (synthesizeSentence env cfg txt speaker s))"
    and ply: "\<And>h f s. spoken f \<in> set chunks \<Longrightarrow> isPlayingAudio s \<or> f \<in> files s \<Longrightarrow>
      R (h, s) (h \<or> \<not> fst (playAudio env f s), snd (playAudio env f s))"
    and pre: "list_all (ofChunks chunks) pre"
  shows "R (he, s) (loopOutcome (lookahead env cfg chunks speaker pos pre ci he s))"
  using refl trans sus syn ply pre
proof (induction env cfg chunks speaker pos pre ci he s rule: lookahead.induct)
  case (1 env cfg chunks speaker pos pre ci he s)
  note refl' = "1.prems"(1) and trans' = "1.prems"(2) and sus' = "1.prems"(3)
    and syn' = "1.prems"(4) and ply' = "1.prems"(5) and pre' = "1.prems"(6)
  show ?case
  proof (cases "pos < length pre")
    case False
    then show ?thesis by (subst lookahead.simps) (simp add: refl' loopOutcome_def)
  next
    case True
    note lt = this
    show ?thesis
    proof (cases "tempFile (pre ! pos)")
      case None
      with lt show ?thesis by (subst lookahead.simps) (simp add: refl' loopOutcome_def)
    next
      case (Some wv)
      note f = this
      have "ofChunks chunks (pre ! pos)" using pre' lt by (simp add: list_all_length)
      with f have spk: "spoken wv \<in> set chunks" by (simp add: ofChunks_def)
      show ?thesis
      proof (cases "isPlayingAudio s")
        case False
        with lt f show ?thesis by (subst lookahead.simps) (simp add: refl' loopOutcome_def)
      next
        case True
        note fl = this
        show ?thesis
        proof (cases "ci + length pre < length chunks")
          case True
          note more = this
          obtain r s1 where a:
            "synthesizeSentence env cfg (chunks ! (ci + length pre)) speaker s = (r, s1)"
            by (cases "synthesizeSentence env cfg (chunks ! (ci + length pre)) speaker s")
          obtain pr s2 where b: "playAudio env wv s1 = (pr, s2)"
            by (cases "playAudio env wv s1")
          have m: "chunks ! (ci + length pre) \<in> set chunks" using more by simp
          from syn' [OF m, where h = he and s = s] have r1: "R (he, s) (he, s1)" using a by simp
          have fl1: "isPlayingAudio s1 \<or> wv \<in> files s1"
            using synthesizeSentence_fields [OF a] fl by simp
          have r2: "R (he, s1) (he \<or> \<not> pr, s2)" using ply' [OF spk fl1, where h = he] b by simp
          have r3: "R (he \<or> \<not> pr, s2) (he \<or> \<not> pr, suspend s2)" by (rule sus')
          have r: "R (he, s) (he \<or> \<not> pr, suspend s2)"
            using trans' [OF trans' [OF r1 r2] r3] .
          show ?thesis
          proof (cases "success r \<and> tempFile r \<noteq> None")
            case True
            have pre2: "list_all (ofChunks chunks) (pre @ [r])"
              using pre' synthesizeSentence_ofChunks [OF a m] by simp
            have "R (he \<or> \<not> pr, suspend s2)
                (loopOutcome (lookahead env cfg chunks speaker (pos + 1) (pre @ [r]) (ci + 1)
                (he \<or> \<not> pr) (suspend s2)))"
              by (rule "1.IH"(1) [OF lt f _ more a [symmetric] b [symmetric] True "1.prems"(1-5) pre2])
                (simp add: fl)
            with r have "R (he, s)
                (loopOutcome (lookahead env cfg chunks speaker (pos + 1) (pre @ [r]) (ci + 1)
                (he \<or> \<not> pr) (suspend s2)))" by (rule trans')
            with lt f fl more a b True show ?thesis
              by (subst lookahead.simps) simp
          next
            case False
            have "R (he \<or> \<not> pr, suspend s2)
                (loopOutcome (lookahead env cfg chunks speaker (pos + 1) pre (ci + 1)
                (he \<or> \<not> pr) (suspend s2)))"
              by (rule "1.IH"(2) [OF lt f _ more a [symmetric] b [symmetric] False "1.prems"])
                (simp add: fl)
            with r have "R (he, s)
                (loopOutcome (lookahead env cfg chunks speaker (pos + 1) pre (ci + 1)
                (he \<or> \<not> pr) (suspend s2)))" by (rule trans')
            with lt f fl more a b False show ?thesis
              by (subst lookahead.simps) auto
          qed
        next
          case False
          note nomore = this
          obtain pr s2 where b: "playAudio env wv s = (pr, s2)"
            by (cases "playAudio env wv s")
          have fl1: "isPlayingAudio s \<or> wv \<in> files s" using fl by simp
          have r2: "R (he, s) (he \<or> \<not> pr, s2)" using ply' [OF spk fl1, where h = he] b by simp
          have "R (he \<or> \<not> pr, s2)
                (loopOutcome (lookahead env cfg chunks speaker (pos + 1) pre (ci + 1)
                (he \<or> \<not> pr) s2))"
            by (rule "1.IH"(3) [OF lt f _ nomore b [symmetric] "1.prems"]) (simp add: fl)
          with r2 have "R (he, s)
                (loopOutcome (lookahead env cfg chunks speaker (pos + 1) pre (ci + 1)
                (he \<or> \<not> pr) s2))" by (rule trans')
          with lt f fl nomore b show ?thesis
            by (subst lookahead.simps) simp
        qed
      qed
    qed
  qed
qed

lemma sequential_rel:
  assumes refl: "\<And>x. R x x" and trans: "\<And>a b c. R a b \<Longrightarrow> R b c \<Longrightarrow> R a c"
    and sus: "\<And>h s. R (h, s) (h, suspend s)"
    and syn: "\<And>h txt s. txt \<in> set chunks \<Longrightarrow>
      R (h, s) (h, snd (synthesizeSentence env cfg txt speaker s))"
    and ply: "\<And>h f s. spoken f \<in> set chunks \<Longrightarrow> isPlayingAudio s \<or> f \<in> files s \<Longrightarrow>
      R (h, s) (h \<or> \<not> fst (playAudio env f s), snd (playAudio env f s))"
    and err: "\<And>h s. R (h, s) (True, s)"
  shows "R (he, s) (sequential env cfg chunks speaker n ci he s)"
  using refl trans sus syn ply err
proof (induction env cfg chunks speaker n ci he s rule: sequential.induct)
  case (1 env cfg chunks speaker n ci he s)
  note refl' = "1.prems"(1) and trans' = "1.prems"(2) and sus' = "1.prems"(3)
    and syn' = "1.prems"(4) and ply' = "1.prems"(5) and err' = "1.prems"(6)
  show ?case
  proof (cases "ci + n < length chunks \<and> isPlayingAudio s")
    case False
    then show ?thesis by (subst sequential.simps) (auto simp: refl')
  next
    case True
    then have lt: "ci + n < length chunks" and fl: "isPlayingAudio s" by simp_all
    obtain r s1 where a: "synthesizeSentence env cfg (chunks ! (ci + n)) speaker s = (r, s1)"
      by (cases "synthesizeSentence env cfg (chunks ! (ci + n)) speaker s")
    have m: "chunks ! (ci + n) \<in> set chunks" using lt by simp
    from syn' [OF m, where h = he and s = s] have r1: "R (he, s) (he, s1)" using a by simp
    have r2: "R (he, s1) (he, suspend s1)" by (rule sus')
    have r12: "R (he, s) (he, suspend s1)" using trans' [OF r1 r2] .
    show ?thesis
    proof (cases "isPlayingAudio (suspend s1)")
      case False
      with lt fl a r12 show ?thesis by (subst sequential.simps) simp
    next
      case True
      note fl2 = this
      show ?thesis
      proof (cases "if success r then tempFile r else None")
        case None
        have "R (True, suspend s1) (sequential env cfg chunks speaker n (ci + 1) True (suspend s1))"
          by (rule "1.IH"(1) [OF lt _ a [symmetric] _ None "1.prems"]) (simp_all add: fl fl2)
        moreover have "R (he, s) (True, suspend s1)" using trans' [OF r12 err'] .
        ultimately have "R (he, s)
            (sequential env cfg chunks speaker n (ci + 1) True (suspend s1))" by (rule trans' [rotated])
        with lt fl fl2 a None show ?thesis by (subst sequential.simps) simp
      next
        case (Some wv)
        obtain pr s2 where b: "playAudio env wv (suspend s1) = (pr, s2)"
          by (cases "playAudio env wv (suspend s1)")
        from Some have "tempFile r = Some wv" by (simp split: if_splits)
        with synthesizeSentence_file [OF a] m have spk: "spoken wv \<in> set chunks" by simp
        have fl3: "isPlayingAudio (suspend s1) \<or> wv \<in> files (suspend s1)" using fl2 by simp
        have r3: "R (he, suspend s1) (he \<or> \<not> pr, s2)"
          using ply' [OF spk fl3, where h = he] b by simp
        have "R (he \<or> \<not> pr, s2) (sequential env cfg chunks speaker n (ci + 1) (he \<or> \<not> pr) s2)"
          by (rule "1.IH"(2) [OF lt _ a [symmetric] _ Some b [symmetric] "1.prems"])
            (simp_all add: fl fl2)
        with trans' [OF r12 r3] have "R (he, s)
            (sequential env cfg chunks speaker n (ci + 1) (he \<or> \<not> pr) s2)" by (rule trans')
        with lt fl fl2 a Some b show ?thesis by (subst sequential.simps) simp
      qed
    qed
  qed
qed

text \<open>From the first wait of a run (that for the first chunk) to its end.\<close>

lemma processChunksParallel_rel_tail:
  assumes refl: "\<And>x. R x x" and trans: "\<And>a b c. R a b \<Longrightarrow> R b c \<Longrightarrow> R a c"
    and sus: "\<And>h s. R (h, s) (h, suspend s)"
    and syn: "\<And>h txt s. txt \<in> set chunks \<Longrightarrow>
      R (h, s) (h, snd (synthesizeSentence env cfg txt speaker s))"
    and ply: "\<And>h f s. spoken f \<in> set chunks \<Longrightarrow> isPlayingAudio s \<or> f \<in> files s \<Longrightarrow>
      R (h, s) (h \<or> \<not> fst (playAudio env f s), snd (playAudio env f s))"
    and err: "\<And>h s. R (h, s) (True, s)"
    and ne: "length chunks \<noteq> 0"
  shows "R (False, suspend (snd (synthesizeSentence env cfg (chunks ! 0) speaker s)))
           (\<not> fst (processChunksParallel env cfg chunks speaker s),
            snd (processChunksParallel env cfg chunks speaker s))"
proof -
  obtain r s1 where a: "synthesizeSentence env cfg (chunks ! 0) speaker s = (r, s1)"
    by (cases "synthesizeSentence env cfg (chunks ! 0) speaker s")
  have m: "chunks ! 0 \<in> set chunks" using ne by simp
  have "R (False, suspend s1) (\<not> fst (processChunksParallel env cfg chunks speaker s),
            snd (processChunksParallel env cfg chunks speaker s))"
  proof (cases "if success r then tempFile r else None")
    case None
    have "R (False, suspend s1) (True, suspend s1)" by (rule err)
    with ne a None show ?thesis by (simp add: processChunksParallel_def)
  next
    case (Some wv)
    let ?ixs = "[1..<min (length chunks) MAX_PARALLEL]"
    obtain results s2 where b: "preload env cfg chunks speaker ?ixs (suspend s1) = (results, s2)"
      by (cases "preload env cfg chunks speaker ?ixs (suspend s1)")
    let ?s2' = "if results = [] then s2 else suspend s2"
    obtain pr s3 where c: "playAudio env wv ?s2' = (pr, s3)"
      by (cases "playAudio env wv ?s2'")
    let ?h = "list_ex (\<lambda>r. \<not> success r) results \<or> \<not> pr"
    obtain pre' ci' he' s4 where d:
      "lookahead env cfg chunks speaker 0 (filter success results) 1 ?h s3 = ((pre', ci', he'), s4)"
      by (cases "lookahead env cfg chunks speaker 0 (filter success results) 1 ?h s3") auto
    obtain he'' s5 where e: "sequential env cfg chunks speaker (length pre') ci' he' s4 = (he'', s5)"
      by (cases "sequential env cfg chunks speaker (length pre') ci' he' s4")
    have ixs: "\<forall>i\<in>set ?ixs. i < length chunks" by simp
    from Some have tf: "tempFile r = Some wv" by (simp split: if_splits)
    have spk: "spoken wv \<in> set chunks" and w1: "wv \<in> files s1"
      using synthesizeSentence_file [OF a tf] m by simp_all
    have pr: "list_all (ofChunks chunks) results" and fs: "files (suspend s1) \<subseteq> files s2"
      using preload_results [OF ixs b] by simp_all
    have w2: "isPlayingAudio ?s2' \<or> wv \<in> files ?s2'" using w1 fs by auto
    have pre0: "list_all (ofChunks chunks) (filter success results)"
      using pr by (simp add: list_all_iff)
    have r2: "R (False, suspend s1) (False, s2)"
      using preload_rel [where R = R and chunks = chunks and env = env and cfg = cfg and ixs = ?ixs
          and h = False and s = "suspend s1" and speaker = speaker, OF refl trans syn ixs] b
      by simp
    have r2': "R (False, s2) (False, ?s2')" by (simp add: refl sus)
    have r3: "R (False, ?s2') (\<not> pr, s3)" using ply [OF spk w2, where h = False] c by simp
    have r3': "R (\<not> pr, s3) (?h, s3)"
      by (cases "list_ex (\<lambda>r. \<not> success r) results") (simp_all add: err refl)
    have r4: "R (?h, s3) (he', s4)"
      using lookahead_rel [where R = R and env = env and cfg = cfg and he = ?h and s = s3
          and chunks = chunks and speaker = speaker and pos = 0 and pre = "filter success results"
          and ci = 1,
          OF refl trans sus syn ply pre0] d
      by (simp add: loopOutcome_def)
    have r5: "R (he', s4) (he'', s5)"
      using sequential_rel [where R = R and env = env and cfg = cfg and he = he' and s = s4
          and chunks = chunks and speaker = speaker and n = "length pre'" and ci = ci',
          OF refl trans sus syn ply err] e by simp
    have "R (False, suspend s1) (he'', s5)"
      using trans [OF trans [OF trans [OF trans [OF trans [OF r2 r2'] r3] r3'] r4] r5] .
    with ne a Some b c d e show ?thesis by (simp add: processChunksParallel_def)
  qed
  with a show ?thesis by simp
qed

lemma processChunksParallel_rel:
  assumes refl: "\<And>x. R x x" and trans: "\<And>a b c. R a b \<Longrightarrow> R b c \<Longrightarrow> R a c"
    and sus: "\<And>h s. R (h, s) (h, suspend s)"
    and syn: "\<And>h txt s. txt \<in> set chunks \<Longrightarrow>
      R (h, s) (h, snd (synthesizeSentence env cfg txt speaker s))"
    and ply: "\<And>h f s. spoken f \<in> set chunks \<Longrightarrow> isPlayingAudio s \<or> f \<in> files s \<Longrightarrow>
      R (h, s) (h \<or> \<not> fst (playAudio env f s), snd (playAudio env f s))"
    and err: "\<And>h s. R (h, s) (True, s)"
  shows "R (False, s) (\<not> fst (processChunksParallel env cfg chunks speaker s),
            snd (processChunksParallel env cfg chunks speaker s))"
proof (cases "length chunks = 0")
  case True
  then show ?thesis by (simp add: processChunksParallel_def refl)
next
  case False
  let ?s1 = "snd (synthesizeSentence env cfg (chunks ! 0) speaker s)"
  have "chunks ! 0 \<in> set chunks" using False by simp
  then have "R (False, s) (False, ?s1)" by (rule syn)
  then have "R (False, s) (False, suspend ?s1)" using sus [of False ?s1] by (rule trans)
  then show ?thesis
    using processChunksParallel_rel_tail [where R = R and env = env and cfg = cfg
        and chunks = chunks and speaker = speaker and s = s,
        OF refl trans sus syn ply err False]
    by (rule trans)
qed

text \<open>The same for a relation between worlds alone, up to a whole turn list.\<close>

lemma processChunksParallel_world:
  assumes refl: "\<And>s. R s s" and trans: "\<And>a b c. R a b \<Longrightarrow> R b c \<Longrightarrow> R a c"
    and sus: "\<And>s. R s (suspend s)"
    and syn: "\<And>txt s. txt \<in> set chunks \<Longrightarrow> R s (snd (synthesizeSentence env cfg txt speaker s))"
    and ply: "\<And>f s. spoken f \<in> set chunks \<Longrightarrow> isPlayingAudio s \<or> f \<in> files s \<Longrightarrow>
      R s (snd (playAudio env f s))"
  shows "R s (snd (processChunksParallel env cfg chunks speaker s))"
proof -
  let ?R = "\<lambda>x y. R (snd x) (snd y)"
  have "?R (False, s) (\<not> fst (processChunksParallel env cfg chunks speaker s),
            snd (processChunksParallel env cfg chunks speaker s))"
  proof (rule processChunksParallel_rel [where R = ?R])
    fix a b c assume "?R a b" "?R b c"
    then show "?R a c" by (rule trans)
  qed (simp_all add: refl sus syn ply)
  then show ?thesis by simp
qed

fun isTurnEvent :: "event \<Rightarrow> bool" where
  "isTurnEvent (TurnBegin t sp) = True"
| "isTurnEvent (TurnEnd r) = True"
| "isTurnEvent e = False"

lemma textToSpeech_world:
  assumes refl: "\<And>s. R s s" and trans: "\<And>a b c. R a b \<Longrightarrow> R b c \<Longrightarrow> R a c"
    and sus: "\<And>s. R s (suspend s)"
    and syn: "\<And>txt sp s. R s (snd (synthesizeSentence env cfg txt sp s))"
    and ply: "\<And>f s. R s (snd (playAudio env f s))"
    and em: "\<And>e s. isTurnEvent e \<Longrightarrow> R s (emit e s)"
    and run: "textToSpeech env cfg txt speaker s = Some (r, s')"
  shows "R s s'"
proof -
  from run obtain cs where cs: "chunkText (MAX_CHUNK_LENGTH cfg) txt = Some cs"
    by (auto simp: textToSpeech_def split: option.splits)
  let ?s0 = "emit (TurnBegin txt speaker) s"
  obtain r1 s1 where p: "processChunksParallel env cfg cs speaker ?s0 = (r1, s1)"
    by (cases "processChunksParallel env cfg cs speaker ?s0")
  with run cs have s': "s' = emit (TurnEnd r1) s1" by (auto simp: textToSpeech_def)
  have a: "R s ?s0" by (rule em) simp
  have b: "R ?s0 s1"
    using processChunksParallel_world [where R = R and env = env and cfg = cfg and s = ?s0
        and chunks = cs and speaker = speaker, OF refl trans sus syn ply] p
    by simp
  have c: "R s1 (emit (TurnEnd r1) s1)" by (rule em) simp
  show ?thesis unfolding s' by (rule trans [OF trans [OF a b] c])
qed

lemma conversationLoop_world:
  assumes refl: "\<And>s. R s s" and trans: "\<And>a b c. R a b \<Longrightarrow> R b c \<Longrightarrow> R a c"
    and sus: "\<And>s. R s (suspend s)"
    and syn: "\<And>txt sp s. R s (snd (synthesizeSentence env cfg txt sp s))"
    and ply: "\<And>f s. R s (snd (playAudio env f s))"
    and em: "\<And>e s. isTurnEvent e \<Longrightarrow> R s (emit e s)"
    and off: "\<And>s. R s (s\<lparr>isPlayingAudio := False\<rparr>)"
  shows "conversationLoop env cfg ds s = Some (r, s') \<Longrightarrow> R s s'"
proof (induction ds arbitrary: s)
  case Nil
  then show ?case using off [of s] by auto
next
  case (Cons d rest)
  show ?case
  proof (cases "isPlayingAudio s")
    case False
    with Cons.prems show ?thesis by (simp add: refl)
  next
    case True
    let ?sp = "case d_speaker d of None \<Rightarrow> DEFAULT_SPEAKER cfg | Some speaker \<Rightarrow> speaker"
    from True Cons.prems obtain r1 s1 where
      t: "textToSpeech env cfg (d_text d) ?sp s = Some (r1, s1)"
      by (cases "textToSpeech env cfg (d_text d) ?sp s") auto
    have r1: "R s s1"
      using textToSpeech_world [of R env cfg "d_text d" ?sp s r1 s1, OF refl trans sus syn ply em t] .
    show ?thesis
    proof (cases r1)
      case False
      with True t Cons.prems have "s' = s1\<lparr>isPlayingAudio := False\<rparr>" by simp
      with trans [OF r1 off [of s1]] show ?thesis by simp
    next
      case True
      with \<open>isPlayingAudio s\<close> t Cons.prems have "conversationLoop env cfg rest s1 = Some (r, s')"
        by simp
      from trans [OF r1 Cons.IH [OF this]] show ?thesis .
    qed
  qed
qed

lemma conversationToSpeech_world:
  assumes refl: "\<And>s. R s s" and trans: "\<And>a b c. R a b \<Longrightarrow> R b c \<Longrightarrow> R a c"
    and sus: "\<And>s. R s (suspend s)"
    and syn: "\<And>txt sp s. R s (snd (synthesizeSentence env cfg txt sp s))"
    and ply: "\<And>f s. R s (snd (playAudio env f s))"
    and em: "\<And>e s. isTurnEvent e \<Longrightarrow> R s (emit e s)"
    and off: "\<And>s. R s (s\<lparr>isPlayingAudio := False\<rparr>)"
    and flagOn: "\<And>s. R s (s\<lparr>isPlayingAudio := True\<rparr>)"
    and run: "conversationToSpeech env cfg ds s = Some (r, s')"
  shows "R s s'"
proof -
  have "R (s\<lparr>isPlayingAudio := True\<rparr>) s'"
    using conversationLoop_world [of R env cfg ds "s\<lparr>isPlayingAudio := True\<rparr>" r s',
        OF refl trans sus syn ply em off] run
    by (simp add: conversationToSpeech_def)
  with flagOn [of s] show ?thesis by (rule trans)
qed

subsection \<open>Waits use up the inbox\<close>

text \<open>
  A step never lengthens the inbox, and changes the queue only in a wait that shortens
  the inbox.
\<close>

definition progress :: "world \<Rightarrow> world \<Rightarrow> bool" where
  "progress s s' \<longleftrightarrow> length (inbox s') \<le> length (inbox s) \<and>
     (length (inbox s') = length (inbox s) \<longrightarrow> queue s' = queue s)"

lemma progress_refl: "progress s s"
  by (simp add: progress_def)

lemma progress_trans: "progress a b \<Longrightarrow> progress b c \<Longrightarrow> progress a c"
  by (auto simp: progress_def)

lemma progress_suspend: "progress s (suspend s)"
  using suspend_inbox [of s] by (auto simp: progress_def)

lemma progress_synthesizeSentence: "progress s (snd (synthesizeSentence env cfg txt sp s))"
  using synthesizeSentence_fields [of env cfg "txt" sp s]
  by (cases "synthesizeSentence env cfg txt sp s") (simp add: progress_def)

lemma unlinkSync_fields:
  "unlinkSync f s = Some s' \<Longrightarrow>
   isPlayingAudio s' = isPlayingAudio s \<and> queue s' = queue s \<and> isProcessing s' = isProcessing s \<and>
   initialized s' = initialized s \<and> inbox s' = inbox s \<and> overlapped s' = overlapped s \<and>
   synthCalls s' = synthCalls s \<and> playCalls s' = playCalls s \<and> trace s' = trace s @ [Unlink f] \<and>
   files s' = files s - {f} \<and> f \<in> files s"
  by (auto simp: unlinkSync_def split: if_splits)

lemma initialize_fields [simp]:
  "queue (initialize s) = queue s" "isProcessing (initialize s) = isProcessing s"
  "files (initialize s) = files s" "inbox (initialize s) = inbox s"
  "synthCalls (initialize s) = synthCalls s" "playCalls (initialize s) = playCalls s"
  "overlapped (initialize s) = overlapped s" "trace (initialize s) = trace s"
  "initialized (initialize s) = True"
  by (simp_all add: initialize_def)

lemma initialize_flag: "isPlayingAudio (initialize s) \<longleftrightarrow> initialized s \<and> isPlayingAudio s"
  by (simp add: initialize_def)

lemma initialize_playing: "isPlayingAudio (initialize s) \<Longrightarrow> initialize s = s"
  by (simp add: initialize_def split: if_splits)

text \<open>
  The five ways through \<^verbatim>\<open>playAudio\<close>; \<open>a\<close> is the world when the call has been written to
  the trace.
\<close>

lemma playAudio_cases [case_names missing discarded failed vanished played]:
  assumes "\<And>a. a = emit (PlayAttempt f) s \<Longrightarrow> \<not> isPlayingAudio (initialize a) \<Longrightarrow>
      unlinkSync f (initialize a) = None \<Longrightarrow> P (False, initialize a)"
    and "\<And>a s1. a = emit (PlayAttempt f) s \<Longrightarrow> \<not> isPlayingAudio (initialize a) \<Longrightarrow>
      unlinkSync f (initialize a) = Some s1 \<Longrightarrow> P (False, s1)"
    and "\<And>a b. a = emit (PlayAttempt f) s \<Longrightarrow> initialized a \<Longrightarrow> isPlayingAudio a \<Longrightarrow>
      b = suspend (emit (PlayCommand f) (a\<lparr>playCalls := Suc (playCalls a)\<rparr>)) \<Longrightarrow>
      \<not> playCommand env (playCalls a) \<Longrightarrow> P (False, b)"
    and "\<And>a b. a = emit (PlayAttempt f) s \<Longrightarrow> initialized a \<Longrightarrow> isPlayingAudio a \<Longrightarrow>
      b = suspend (emit (PlayCommand f) (a\<lparr>playCalls := Suc (playCalls a)\<rparr>)) \<Longrightarrow>
      playCommand env (playCalls a) \<Longrightarrow> unlinkSync f b = None \<Longrightarrow> P (False, b)"
    and "\<And>a b s2. a = emit (PlayAttempt f) s \<Longrightarrow> initialized a \<Longrightarrow> isPlayingAudio a \<Longrightarrow>
      b = suspend (emit (PlayCommand f) (a\<lparr>playCalls := Suc (playCalls a)\<rparr>)) \<Longrightarrow>
      playCommand env (playCalls a) \<Longrightarrow> unlinkSync f b = Some s2 \<Longrightarrow> P (True, s2)"
  shows "P (playAudio env f s)"
proof -
  let ?a = "emit (PlayAttempt f) s"
  have i: "(if \<not> initialized s then initialize ?a else ?a) = initialize ?a"
    by (simp add: initialize_def)
  show ?thesis
  proof (cases "isPlayingAudio (initialize ?a)")
    case False
    then show ?thesis using assms(1) [of ?a] assms(2) [of ?a]
      by (cases "unlinkSync f (initialize ?a)") (simp_all add: playAudio_def i Let_def)
  next
    case True
    then have s: "initialize ?a = ?a" "initialized ?a" "isPlayingAudio ?a"
      by (simp_all add: initialize_playing initialize_flag)
    let ?b = "suspend (emit (PlayCommand f) (?a\<lparr>playCalls := Suc (playCalls ?a)\<rparr>))"
    show ?thesis
    proof (cases "playCommand env (playCalls ?a)")
      case False
      with s assms(3) [of ?a ?b] show ?thesis by (simp add: playAudio_def i Let_def)
    next
      case True
      with s assms(4) [of ?a ?b] assms(5) [of ?a ?b] show ?thesis
        by (cases "unlinkSync f ?b") (simp_all add: playAudio_def i Let_def)
    qed
  qed
qed

lemma progress_unlinkSync: "unlinkSync f s = Some s' \<Longrightarrow> progress s s'"
  by (drule unlinkSync_fields) (simp add: progress_def)

lemma progress_initialize: "progress s (initialize s)"
  by (simp add: progress_def)

lemma progress_play_wait:
  "progress s (suspend (emit (PlayCommand f) (s\<lparr>playCalls := Suc (playCalls s)\<rparr>)))"
  using progress_suspend [of "emit (PlayCommand f) (s\<lparr>playCalls := Suc (playCalls s)\<rparr>)"]
  by (simp add: progress_def)

lemma progress_playAudio: "progress s (snd (playAudio env f s))"
proof (rule playAudio_cases [of f s "\<lambda>x. progress s (snd x)" env])
  fix a assume "a = emit (PlayAttempt f) s"
  then show "progress s (snd (False, initialize a))" by (simp add: progress_def)
next
  fix a s1 assume a: "a = emit (PlayAttempt f) s" and "unlinkSync f (initialize a) = Some s1"
  then have "progress (initialize a) s1" by (intro progress_unlinkSync)
  moreover have "progress s (initialize a)" using a by (simp add: progress_def)
  ultimately show "progress s (snd (False, s1))" by (auto intro: progress_trans)
next
  fix a b assume a: "a = emit (PlayAttempt f) s"
    and b: "b = suspend (emit (PlayCommand f) (a\<lparr>playCalls := Suc (playCalls a)\<rparr>))"
    and "\<not> playCommand env (playCalls a)"
  have "progress s a" using a by (simp add: progress_def)
  with progress_play_wait [of a f] b show "progress s (snd (False, b))"
    by (auto intro: progress_trans)
next
  fix a b assume a: "a = emit (PlayAttempt f) s"
    and b: "b = suspend (emit (PlayCommand f) (a\<lparr>playCalls := Suc (playCalls a)\<rparr>))"
    and "unlinkSync f b = None"
  have "progress s a" using a by (simp add: progress_def)
  with progress_play_wait [of a f] b show "progress s (snd (False, b))"
    by (auto intro: progress_trans)
next
  fix a b s2 assume a: "a = emit (PlayAttempt f) s"
    and b: "b = suspend (emit (PlayCommand f) (a\<lparr>playCalls := Suc (playCalls a)\<rparr>))"
    and u: "unlinkSync f b = Some s2"
  have "progress s a" using a by (simp add: progress_def)
  with progress_play_wait [of a f] b have "progress s b" by (auto intro: progress_trans)
  with progress_unlinkSync [OF u] show "progress s (snd (True, s2))"
    by (auto intro: progress_trans)
qed

lemma progress_conversationToSpeech:
  "conversationToSpeech env cfg ds s = Some (r, s') \<Longrightarrow> progress s s'"
proof (rule conversationToSpeech_world [of progress env cfg ds s r s'])
  fix a b c assume "progress a b" "progress b c"
  then show "progress a c" by (rule progress_trans)
next
  fix e s assume "isTurnEvent e"
  show "progress s (emit e s)" by (simp add: progress_def)
next
  fix s show "progress s (s\<lparr>isPlayingAudio := False\<rparr>)" by (simp add: progress_def)
next
  fix s show "progress s (s\<lparr>isPlayingAudio := True\<rparr>)" by (simp add: progress_def)
next
  fix s show "progress s s" by (rule progress_refl)
next
  fix s show "progress s (suspend s)" by (rule progress_suspend)
next
  fix tx sp s show "progress s (snd (synthesizeSentence env cfg tx sp s))"
    by (rule progress_synthesizeSentence)
next
  fix f s show "progress s (snd (playAudio env f s))" by (rule progress_playAudio)
qed

subsection \<open>The drain of the queue\<close>

text \<open>
  \<^verbatim>\<open>AudioPlayer.processQueue\<close>: take the first turn list off the queue, speak it, and call
  itself again. \<open>None\<close>: the chunking of a turn does not return.
\<close>

function processQueue :: "env \<Rightarrow> config \<Rightarrow> world \<Rightarrow> world option" where
  "processQueue env cfg s =
     (case queue s of
        [] \<Rightarrow> Some (s\<lparr>isProcessing := False\<rparr>)
      | currentDialogues # rest \<Rightarrow>
          (case conversationToSpeech env cfg currentDialogues
                  (emit (Dequeue currentDialogues) (s\<lparr>isProcessing := True, queue := rest\<rparr>)) of
             None \<Rightarrow> None
           | Some (result, s1) \<Rightarrow> processQueue env cfg (emit (ConversationEnd result) s1)))"
  by pat_completeness auto
termination
proof (relation "inv_image (less_than <*lex*> less_than)
    (\<lambda>(env, cfg, s). (length (inbox s), length (queue s)))")
  show "wf (inv_image (less_than <*lex*> less_than)
    (\<lambda>(env :: env, cfg :: config, s). (length (inbox s), length (queue s))))"
    by (intro wf_inv_image wf_lex_prod wf_less_than)
next
  fix env cfg s currentDialogues rest x2 result s1
  assume q: "queue s = currentDialogues # rest"
    and c: "conversationToSpeech env cfg currentDialogues
        (emit (Dequeue currentDialogues) (s\<lparr>isProcessing := True, queue := rest\<rparr>)) = Some x2"
    and x: "(result, s1) = x2"
  from c x have "progress (emit (Dequeue currentDialogues) (s\<lparr>isProcessing := True, queue := rest\<rparr>)) s1"
    by (intro progress_conversationToSpeech [of env cfg currentDialogues _ result]) simp
  then have "length (inbox s1) < length (inbox s) \<or>
      length (inbox s1) = length (inbox s) \<and> queue s1 = rest"
    by (auto simp: progress_def)
  with q show "((env, cfg, emit (ConversationEnd result) s1), env, cfg, s)
      \<in> inv_image (less_than <*lex*> less_than) (\<lambda>(env, cfg, s). (length (inbox s), length (queue s)))"
    by auto
qed

declare processQueue.simps [simp del]

text \<open>
  \<^verbatim>\<open>AudioPlayer.addToQueue\<close>, called by the \<^verbatim>\<open>speak\<close> tool. The source starts the drain
  and does not wait for it; the result here is the world when the drain has ended.
\<close>

definition addToQueue :: "env \<Rightarrow> config \<Rightarrow> dialogueData list \<Rightarrow> world \<Rightarrow> world option" where
  "addToQueue env cfg dialogues s =
     (let s1 = emit (Enqueue dialogues) (s\<lparr>queue := queue s @ [dialogues]\<rparr>)
      in if \<not> isProcessing s1 then processQueue env cfg s1 else Some s1)"

section \<open>Concrete worlds\<close>

text \<open>The configuration with every environment variable unset.\<close>

definition defaults :: config where
  "defaults = \<lparr>DEFAULT_SPEAKER = 3, VOLUME_SCALE = JNumber (1 / 2), SPEED_SCALE = JNumber (21 / 20),
     PRE_PHONEME_LENGTH = JNumber (3 / 10), POST_PHONEME_LENGTH = JNumber (3 / 10),
     INTONATION_SCALE = JNumber (11 / 10), MAX_CHUNK_LENGTH = 300\<rparr>"

text \<open>
  An engine that fails the query for the texts in \<open>bad\<close> and answers every other one
  with the same small descriptor, and a platform player whose \<open>n\<close>-th command succeeds
  when \<open>plays n\<close>.
\<close>

definition engine :: "jsstring list \<Rightarrow> (nat \<Rightarrow> bool) \<Rightarrow> env" where
  "engine bad plays =
     \<lparr>audio_query = (\<lambda>n tx sp. if tx \<in> set bad then None
          else Some [(''speedScale'', JNumber 1), (''pitchScale'', JNumber 0),
                     (''kana'', JString ''a'')]),
      synthesis = (\<lambda>n q sp. True),
      playCommand = plays\<rparr>"

text \<open>The player at rest after \<^verbatim>\<open>main\<close> has initialised it, with the requests to come.\<close>

definition idle :: "request list list \<Rightarrow> world" where
  "idle requests =
     \<lparr>isPlayingAudio = False, queue = [], isProcessing = False, initialized = True,
      files = {}, inbox = requests, synthCalls = 0, playCalls = 0, trace = [],
      overlapped = False\<rparr>"

text \<open>The world in which \<^verbatim>\<open>conversationToSpeech\<close> runs its first turn.\<close>

definition speaking :: "request list list \<Rightarrow> world" where
  "speaking requests = (idle requests)\<lparr>isPlayingAudio := True, isProcessing := True\<rparr>"

text \<open>The texts whose audio the platform player was started on, in order.\<close>

fun played :: "event list \<Rightarrow> jsstring list" where
  "played [] = []"
| "played (PlayCommand f # es) = spoken f # played es"
| "played (e # es) = played es"

section \<open>The descriptor sent to the synthesis endpoint\<close>

lemma map_of_overrideQuery:
  "map_of (overrideQuery cfg q) =
     (map_of q)(''volumeScale'' \<mapsto> VOLUME_SCALE cfg, ''speedScale'' \<mapsto> SPEED_SCALE cfg,
        ''prePhonemeLength'' \<mapsto> PRE_PHONEME_LENGTH cfg,
        ''postPhonemeLength'' \<mapsto> POST_PHONEME_LENGTH cfg,
        ''intonationScale'' \<mapsto> INTONATION_SCALE cfg)"
  by (simp add: overrideQuery_def update_conv')

text \<open>
  Claim C8. In every synthesis call, the descriptor submitted to the synthesis endpoint
  is the one the query endpoint returned with exactly the five fields
  \<^verbatim>\<open>volumeScale\<close>, \<^verbatim>\<open>speedScale\<close>, \<^verbatim>\<open>prePhonemeLength\<close>, \<^verbatim>\<open>postPhonemeLength\<close> and
  \<^verbatim>\<open>intonationScale\<close> set to the configured constants; every other field is as the
  query endpoint gave it. When the query fails nothing is submitted.
\<close>

theorem synthesis_descriptor:
  "synthesizeSentence env cfg tx speaker s = (r, s') \<Longrightarrow>
   (case audio_query env (synthCalls s) tx speaker of
      None \<Rightarrow> trace s' = trace s @ [AudioQuery tx speaker] \<and> \<not> success r
    | Some queryData \<Rightarrow>
        (\<exists>q. trace s' = trace s @ [AudioQuery tx speaker, Synthesis q speaker] \<and>
           map_of q =
             (map_of queryData)(''volumeScale'' \<mapsto> VOLUME_SCALE cfg,
                ''speedScale'' \<mapsto> SPEED_SCALE cfg,
                ''prePhonemeLength'' \<mapsto> PRE_PHONEME_LENGTH cfg,
                ''postPhonemeLength'' \<mapsto> POST_PHONEME_LENGTH cfg,
                ''intonationScale'' \<mapsto> INTONATION_SCALE cfg)))"
proof (cases "audio_query env (synthCalls s) tx speaker")
  case None
  assume "synthesizeSentence env cfg tx speaker s = (r, s')"
  with None show ?thesis by (auto simp: synthesizeSentence_def Let_def)
next
  case (Some queryData)
  assume "synthesizeSentence env cfg tx speaker s = (r, s')"
  with Some have "trace s' = trace s @ [AudioQuery tx speaker, Synthesis (overrideQuery cfg queryData) speaker]"
    by (auto simp: synthesizeSentence_def Let_def split: if_splits)
  with Some show ?thesis using map_of_overrideQuery [of cfg queryData] by auto
qed

theorem synthesis_descriptor_witness:
  "\<exists>q. trace (snd (synthesizeSentence (engine [] (\<lambda>n. True)) defaults [0x61] 3 (speaking [])))
         = [AudioQuery [0x61] 3, Synthesis q 3] \<and>
       map_of q ''speedScale'' = Some (JNumber (21 / 20)) \<and>
       map_of q ''volumeScale'' = Some (JNumber (1 / 2)) \<and>
       map_of q ''pitchScale'' = Some (JNumber 0) \<and>
       map_of q ''kana'' = Some (JString ''a'') \<and>
       map_of q ''outputSamplingRate'' = None"
proof -
  let ?r = "synthesizeSentence (engine [] (\<lambda>n. True)) defaults [0x61] 3 (speaking [])"
  have q: "audio_query (engine [] (\<lambda>n. True)) (synthCalls (speaking [])) [0x61] 3
      = Some [(''speedScale'', JNumber 1), (''pitchScale'', JNumber 0), (''kana'', JString ''a'')]"
    by (simp add: engine_def)
  have t: "trace (speaking []) = []" by (simp add: speaking_def idle_def)
  from synthesis_descriptor [of "engine [] (\<lambda>n. True)" defaults "[0x61]" 3 "speaking []" "fst ?r" "snd ?r"]
  obtain q where "trace (snd ?r) = [AudioQuery [0x61] 3, Synthesis q 3]"
    and "map_of q = (map_of [(''speedScale'', JNumber 1), (''pitchScale'', JNumber 0), (''kana'', JString ''a'')])
      (''volumeScale'' \<mapsto> VOLUME_SCALE defaults, ''speedScale'' \<mapsto> SPEED_SCALE defaults,
       ''prePhonemeLength'' \<mapsto> PRE_PHONEME_LENGTH defaults,
       ''postPhonemeLength'' \<mapsto> POST_PHONEME_LENGTH defaults,
       ''intonationScale'' \<mapsto> INTONATION_SCALE defaults)"
    unfolding q t by auto
  then show ?thesis by (auto simp: defaults_def)
qed

section \<open>Playing one file\<close>

text \<open>
  Claim C5: a play with the flag false deletes the file and reports failure without
  starting the platform player; otherwise the platform command is run and its failure
  is reported as failure; and in every case the file is deleted before the play
  returns. The code keeps the first two parts and the last one for the first and the
  successful case; where the platform command fails, \<^verbatim>\<open>playAudio\<close> reports failure and
  leaves the file in place: the rejected promise skips \<^verbatim>\<open>fs.unlinkSync\<close>.
\<close>

theorem playAudio_failed_command_keeps_file:
  "initialized s \<Longrightarrow> isPlayingAudio s \<Longrightarrow> \<not> playCommand env (playCalls s) \<Longrightarrow> f \<in> files s \<Longrightarrow>
   \<not> fst (playAudio env f s) \<and> f \<in> files (snd (playAudio env f s)) \<and>
   PlayCommand f \<in> set (trace (snd (playAudio env f s)))"
proof -
  assume a: "initialized s" "isPlayingAudio s" "\<not> playCommand env (playCalls s)" "f \<in> files s"
  let ?c = "emit (PlayCommand f) ((emit (PlayAttempt f) s)\<lparr>playCalls := Suc (playCalls s)\<rparr>)"
  from a have p: "playAudio env f s = (False, suspend ?c)"
    by (simp add: playAudio_def Let_def)
  obtain new where "trace (suspend ?c) = trace ?c @ new"
    using suspend_trace by blast
  with p a show ?thesis by simp
qed

theorem playAudio_failed_command_keeps_file_witness:
  "\<not> fst (playAudio (engine [] (\<lambda>n. False)) \<lparr>serial = 0, spoken = [0x61]\<rparr>
        ((speaking [])\<lparr>files := {\<lparr>serial = 0, spoken = [0x61]\<rparr>}\<rparr>)) \<and>
   \<lparr>serial = 0, spoken = [0x61]\<rparr> \<in> files (snd (playAudio (engine [] (\<lambda>n. False)) \<lparr>serial = 0, spoken = [0x61]\<rparr>
        ((speaking [])\<lparr>files := {\<lparr>serial = 0, spoken = [0x61]\<rparr>}\<rparr>)))"
  using playAudio_failed_command_keeps_file [of "(speaking [])\<lparr>files := {\<lparr>serial = 0, spoken = [0x61]\<rparr>}\<rparr>"
      "engine [] (\<lambda>n. False)" "\<lparr>serial = 0, spoken = [0x61]\<rparr>"]
  by (simp add: speaking_def idle_def engine_def)

text \<open>The two other cases of claim C5, as the claim says.\<close>

lemma playAudio_unauthorized:
  "initialized s \<Longrightarrow> \<not> isPlayingAudio s \<Longrightarrow> f \<in> files s \<Longrightarrow>
   playAudio env f s =
     (False, emit (Unlink f) ((emit (PlayAttempt f) s)\<lparr>files := files s - {f}\<rparr>))"
  by (simp add: playAudio_def unlinkSync_def Let_def)

lemma playAudio_success:
  "initialized s \<Longrightarrow> isPlayingAudio s \<Longrightarrow> playCommand env (playCalls s) \<Longrightarrow> f \<in> files s \<Longrightarrow>
   fst (playAudio env f s) \<and> f \<notin> files (snd (playAudio env f s))"
  by (simp add: playAudio_def Let_def unlinkSync_def)

section \<open>Runs of the scheduler on concrete chunk lists\<close>

lemma played_append: "played (xs @ ys) = played xs @ played ys"
  by (induction xs rule: played.induct) simp_all

lemma played_none: "list_all (\<lambda>e. \<not> isPlayEvent e) es \<Longrightarrow> played es = []"
  by (induction es rule: played.induct) simp_all

lemma queue_event_not_play: "list_all isQueueEvent es \<Longrightarrow> list_all (\<lambda>e. \<not> isPlayEvent e) es"
proof (induction es)
  case Nil
  show ?case by simp
next
  case (Cons e es)
  then show ?case by (cases e) simp_all
qed


text \<open>
  Claim C1: the chunk indices played are strictly ascending, every chunk is played at
  most once, also when a lookahead synthesis fails. The code does not keep this. Three
  chunks, the engine fails on the second only: the preload keeps the third chunk alone,
  the loop then computes the next index from the length of that array, synthesises the
  third chunk again, and plays it twice. The indices played are 0, 2, 2.
\<close>

theorem preload_failure_plays_chunk_twice:
  "played (trace (snd (processChunksParallel (engine [[0x62]] (\<lambda>n. True)) defaults
      [[0x61], [0x62], [0x63]] 3 (speaking [])))) = [[0x61], [0x63], [0x63]]"
  by code_simp

text \<open>
  With no failure at all, five chunks: the fifth is never synthesised or played, and
  the run reports success.
\<close>

lemma fifth_chunk_skipped:
  "fst (processChunksParallel (engine [] (\<lambda>n. True)) defaults
      [[0x61], [0x62], [0x63], [0x64], [0x65]] 3 (speaking [])) \<and>
   played (trace (snd (processChunksParallel (engine [] (\<lambda>n. True)) defaults
      [[0x61], [0x62], [0x63], [0x64], [0x65]] 3 (speaking [])))) = [[0x61], [0x62], [0x63], [0x64]]"
  by code_simp

text \<open>
  Claim C4: a failure of the first chunk ends the run at once with failure; a failure
  of a later chunk does not end the run, but the run reports failure. The code does not
  keep the second part. Four chunks, the engine fails on the fourth only: its synthesis
  is started in the lookahead loop, which drops a failed result without setting
  \<^verbatim>\<open>hasError\<close>, and the run reports success with the fourth chunk unplayed.
\<close>

theorem lookahead_failure_reports_success:
  "fst (processChunksParallel (engine [[0x64]] (\<lambda>n. True)) defaults
      [[0x61], [0x62], [0x63], [0x64]] 3 (speaking [])) \<and>
   played (trace (snd (processChunksParallel (engine [[0x64]] (\<lambda>n. True)) defaults
      [[0x61], [0x62], [0x63], [0x64]] 3 (speaking [])))) = [[0x61], [0x62], [0x63]] \<and>
   AudioQuery [0x64] 3 \<in> set (trace (snd (processChunksParallel (engine [[0x64]] (\<lambda>n. True)) defaults
      [[0x61], [0x62], [0x63], [0x64]] 3 (speaking []))))"
  by code_simp

text \<open>The parts of claim C4 that hold: the first chunk, and the scenario of the claim.\<close>

lemma first_chunk_failure:
  assumes "chunks \<noteq> []" and "audio_query env (synthCalls s) (chunks ! 0) speaker = None"
  shows "\<not> fst (processChunksParallel env cfg chunks speaker s) \<and>
     played (trace (snd (processChunksParallel env cfg chunks speaker s))) = played (trace s)"
proof -
  let ?s1 = "emit (AudioQuery (chunks ! 0) speaker) (s\<lparr>synthCalls := Suc (synthCalls s)\<rparr>)"
  have a: "synthesizeSentence env cfg (chunks ! 0) speaker s = (\<lparr>success = False, tempFile = None\<rparr>, ?s1)"
    using assms(2) by (simp add: synthesizeSentence_def Let_def)
  have p: "processChunksParallel env cfg chunks speaker s = (False, suspend ?s1)"
    using assms(1) a by (simp add: processChunksParallel_def)
  obtain new where n: "trace (suspend ?s1) = trace ?s1 @ new" "list_all isQueueEvent new"
    using suspend_trace by blast
  have "played (trace (suspend ?s1)) = played (trace s)"
    using n played_none [OF queue_event_not_play [OF n(2)]] by (simp add: played_append)
  with p show ?thesis by simp
qed

lemma third_of_five_fails:
  "\<not> fst (processChunksParallel (engine [[0x63]] (\<lambda>n. True)) defaults
      [[0x61], [0x62], [0x63], [0x64], [0x65]] 3 (speaking [])) \<and>
   played (trace (snd (processChunksParallel (engine [[0x63]] (\<lambda>n. True)) defaults
      [[0x61], [0x62], [0x63], [0x64], [0x65]] 3 (speaking [])))) = [[0x61], [0x62], [0x64], [0x65]]"
  by code_simp

section \<open>Cancellation during a run\<close>


text \<open>The files deleted, and those of them deleted without being played.\<close>

fun unlinked :: "event list \<Rightarrow> wav list" where
  "unlinked [] = []"
| "unlinked (Unlink f # es) = f # unlinked es"
| "unlinked (e # es) = unlinked es"

definition discarded :: "event list \<Rightarrow> wav list" where
  "discarded es = filter (\<lambda>f. PlayCommand f \<notin> set es) (unlinked es)"








lemma played_no_play: "played es = [] \<longleftrightarrow> list_all (\<lambda>e. \<not> isPlayEvent e) es"
  by (induction es rule: played.induct) simp_all































section \<open>The queue is drained in order, one turn list at a time\<close>

text \<open>The turn lists pushed on the queue and those taken off it, in the order of the trace.\<close>

fun enqueued :: "event list \<Rightarrow> dialogueData list list" where
  "enqueued [] = []"
| "enqueued (Enqueue ds # es) = ds # enqueued es"
| "enqueued (e # es) = enqueued es"

fun dequeued :: "event list \<Rightarrow> dialogueData list list" where
  "dequeued [] = []"
| "dequeued (Dequeue ds # es) = ds # dequeued es"
| "dequeued (e # es) = dequeued es"

text \<open>
  Where the drain stands: between turn lists; in a turn list, with the turns of the list
  still to come; or in a turn, with its text, its speaker and the turns to come after
  it. A turn list is taken off the queue only between turn lists. A turn begins only
  between turns, and it is the first of the turns to come, with its text and with its
  speaker or the default one. The engine and the player are used only in a turn: a
  request to the engine is for the speaker of the turn, a query is for a chunk of the
  text of the turn, and a file that is played or deleted holds the audio of a chunk of the
  text of the turn. A turn list ends between turns. Requests are handled anywhere.
\<close>

datatype phase = Idle | InList "dialogueData list" | InTurn jsstring int "dialogueData list"

definition isChunkOf :: "config \<Rightarrow> jsstring \<Rightarrow> jsstring \<Rightarrow> bool" where
  "isChunkOf cfg txt chunk =
     (case chunkText (MAX_CHUNK_LENGTH cfg) txt of
        None \<Rightarrow> False
      | Some allChunks \<Rightarrow> chunk \<in> set allChunks)"

fun step :: "config \<Rightarrow> phase \<Rightarrow> event \<Rightarrow> phase option" where
  "step cfg p (Enqueue ds) = Some p"
| "step cfg p StopRequest = Some p"
| "step cfg Idle (Dequeue ds) = Some (InList ds)"
| "step cfg (InList (dialogue # rest)) (TurnBegin txt speaker) =
     (if txt = d_text dialogue \<and>
         speaker = (case d_speaker dialogue of None \<Rightarrow> DEFAULT_SPEAKER cfg | Some sp \<Rightarrow> sp)
      then Some (InTurn txt speaker rest) else None)"
| "step cfg (InTurn txt speaker rest) (TurnEnd r) = Some (InList rest)"
| "step cfg (InList rest) (ConversationEnd r) = Some Idle"
| "step cfg (InTurn txt speaker rest) (AudioQuery t sp) =
     (if sp = speaker \<and> isChunkOf cfg txt t then Some (InTurn txt speaker rest) else None)"
| "step cfg (InTurn txt speaker rest) (Synthesis q sp) =
     (if sp = speaker then Some (InTurn txt speaker rest) else None)"
| "step cfg (InTurn txt speaker rest) (PlayAttempt f) =
     (if isChunkOf cfg txt (spoken f) then Some (InTurn txt speaker rest) else None)"
| "step cfg (InTurn txt speaker rest) (PlayCommand f) =
     (if isChunkOf cfg txt (spoken f) then Some (InTurn txt speaker rest) else None)"
| "step cfg (InTurn txt speaker rest) (Unlink f) =
     (if isChunkOf cfg txt (spoken f) then Some (InTurn txt speaker rest) else None)"
| "step cfg p e = None"

fun phaseAfter :: "config \<Rightarrow> phase \<Rightarrow> event list \<Rightarrow> phase option" where
  "phaseAfter cfg p [] = Some p"
| "phaseAfter cfg p (e # es) =
     (case step cfg p e of None \<Rightarrow> None | Some p' \<Rightarrow> phaseAfter cfg p' es)"

lemma enqueued_append: "enqueued (xs @ ys) = enqueued xs @ enqueued ys"
  by (induction xs rule: enqueued.induct) simp_all

lemma dequeued_append: "dequeued (xs @ ys) = dequeued xs @ dequeued ys"
  by (induction xs rule: dequeued.induct) simp_all

lemma phaseAfter_append:
  "phaseAfter cfg p (xs @ ys) =
     (case phaseAfter cfg p xs of None \<Rightarrow> None | Some q \<Rightarrow> phaseAfter cfg q ys)"
  by (induction xs arbitrary: p) (simp_all split: option.splits)

text \<open>
  The queue discipline: the lists taken off so far, followed by the queue, are a
  subsequence of the lists pushed so far, and are all of them when no stop request
  emptied the queue.
\<close>

definition fifo :: "world \<Rightarrow> bool" where
  "fifo s \<longleftrightarrow> subseq (dequeued (trace s) @ queue s) (enqueued (trace s)) \<and>
     (StopRequest \<notin> set (trace s) \<longrightarrow> dequeued (trace s) @ queue s = enqueued (trace s))"

text \<open>What holds throughout a drain that stands in phase \<open>p\<close>.\<close>

definition draining :: "config \<Rightarrow> phase \<Rightarrow> world \<Rightarrow> bool" where
  "draining cfg p s \<longleftrightarrow>
     isProcessing s \<and> \<not> overlapped s \<and> fifo s \<and> phaseAfter cfg Idle (trace s) = Some p"

fun isChunkEvent :: "event \<Rightarrow> bool" where
  "isChunkEvent (AudioQuery t sp) = True"
| "isChunkEvent (Synthesis q sp) = True"
| "isChunkEvent (PlayAttempt f) = True"
| "isChunkEvent (PlayCommand f) = True"
| "isChunkEvent (Unlink f) = True"
| "isChunkEvent e = False"

lemma draining_emit_chunk:
  "draining cfg p s \<Longrightarrow> isChunkEvent e \<Longrightarrow> step cfg p e = Some p \<Longrightarrow> draining cfg p (emit e s)"
  by (cases e) (simp_all add: draining_def fifo_def enqueued_append dequeued_append phaseAfter_append)

lemma draining_fields:
  "draining cfg p s \<Longrightarrow> trace s' = trace s \<Longrightarrow> queue s' = queue s \<Longrightarrow>
   isProcessing s' = isProcessing s \<Longrightarrow> overlapped s' = overlapped s \<Longrightarrow> draining cfg p s'"
  by (simp add: draining_def fifo_def)

lemma draining_deliver: "draining cfg p s \<Longrightarrow> draining cfg p (deliver r s)"
proof (cases r)
  case StopSpeak
  assume d: "draining cfg p s"
  then have "subseq (dequeued (trace s) @ queue s) (enqueued (trace s))"
    by (simp add: draining_def fifo_def)
  then have "subseq (dequeued (trace s)) (enqueued (trace s))"
    by (metis append_Nil2 list_emb_append_mono subseq_order.order_trans list_emb_Nil
        subseq_order.order_refl)
  with d StopSpeak show ?thesis
    by (simp add: draining_def fifo_def stopAudio_def enqueued_append dequeued_append phaseAfter_append)
next
  case (Speak ds)
  assume d: "draining cfg p s"
  then have "subseq (dequeued (trace s) @ queue s) (enqueued (trace s))"
    by (simp add: draining_def fifo_def)
  then have "subseq ((dequeued (trace s) @ queue s) @ [ds]) (enqueued (trace s) @ [ds])"
    by (intro list_emb_append_mono) simp_all
  with d Speak show ?thesis
    by (simp add: draining_def fifo_def Let_def enqueued_append dequeued_append phaseAfter_append)
qed

lemma draining_fold_deliver: "draining cfg p s \<Longrightarrow> draining cfg p (fold deliver rs s)"
  by (induction rs arbitrary: s) (simp_all add: draining_deliver)

lemma draining_suspend: "draining cfg p s \<Longrightarrow> draining cfg p (suspend s)"
proof (cases "inbox s")
  case Nil
  assume "draining cfg p s"
  with Nil show ?thesis by (simp add: suspend_def)
next
  case (Cons rs rest)
  assume "draining cfg p s"
  then have "draining cfg p (s\<lparr>inbox := rest\<rparr>)" by (rule draining_fields) simp_all
  then have "draining cfg p (fold deliver rs (s\<lparr>inbox := rest\<rparr>))" by (rule draining_fold_deliver)
  with Cons show ?thesis by (simp add: suspend_def)
qed

lemma draining_synthesizeSentence:
  assumes d: "draining cfg (InTurn t sp rest) s" and c: "isChunkOf cfg t tx"
  shows "draining cfg (InTurn t sp rest) (snd (synthesizeSentence env cfg tx sp s))"
proof -
  let ?p = "InTurn t sp rest"
  let ?s1 = "emit (AudioQuery tx sp) (s\<lparr>synthCalls := Suc (synthCalls s)\<rparr>)"
  have 0: "draining cfg ?p (s\<lparr>synthCalls := Suc (synthCalls s)\<rparr>)"
    using d by (rule draining_fields) simp_all
  have 1: "draining cfg ?p ?s1" by (rule draining_emit_chunk [OF 0]) (simp_all add: c)
  have 2: "draining cfg ?p (emit (Synthesis q sp) ?s1)" for q
    by (rule draining_emit_chunk [OF 1]) simp_all
  have 3: "draining cfg ?p ((emit (Synthesis q sp) ?s1)\<lparr>files := F\<rparr>)" for q F
    using 2 [of q] by (rule draining_fields) simp_all
  show ?thesis using 1 2 3
    by (simp add: synthesizeSentence_def Let_def split: option.splits)
qed

lemma draining_unlinkSync:
  assumes d: "draining cfg (InTurn t sp rest) s" and c: "isChunkOf cfg t (spoken f)"
    and u: "unlinkSync f s = Some s'"
  shows "draining cfg (InTurn t sp rest) s'"
proof -
  have 0: "draining cfg (InTurn t sp rest) (s\<lparr>files := files s - {f}\<rparr>)"
    using d by (rule draining_fields) simp_all
  have "draining cfg (InTurn t sp rest) (emit (Unlink f) (s\<lparr>files := files s - {f}\<rparr>))"
    by (rule draining_emit_chunk [OF 0]) (simp_all add: c)
  with u show ?thesis by (simp add: unlinkSync_def split: if_splits)
qed

lemma draining_initialize: "draining cfg p s \<Longrightarrow> draining cfg p (initialize s)"
  by (rule draining_fields) simp_all

lemma draining_play_wait:
  assumes d: "draining cfg (InTurn t sp rest) s" and c: "isChunkOf cfg t (spoken f)"
  shows "draining cfg (InTurn t sp rest)
     (suspend (emit (PlayCommand f) (s\<lparr>playCalls := Suc (playCalls s)\<rparr>)))"
proof -
  have 0: "draining cfg (InTurn t sp rest) (s\<lparr>playCalls := Suc (playCalls s)\<rparr>)"
    using d by (rule draining_fields) simp_all
  have "draining cfg (InTurn t sp rest) (emit (PlayCommand f) (s\<lparr>playCalls := Suc (playCalls s)\<rparr>))"
    by (rule draining_emit_chunk [OF 0]) (simp_all add: c)
  then show ?thesis by (rule draining_suspend)
qed

lemma draining_playAudio:
  assumes d: "draining cfg (InTurn t sp rest) s" and c: "isChunkOf cfg t (spoken f)"
  shows "draining cfg (InTurn t sp rest) (snd (playAudio env f s))"
proof -
  have call: "draining cfg (InTurn t sp rest) (emit (PlayAttempt f) s)"
    by (rule draining_emit_chunk [OF d]) (simp_all add: c)
  show ?thesis
  proof (rule playAudio_cases [of f s "\<lambda>x. draining cfg (InTurn t sp rest) (snd x)" env])
    fix a assume a: "a = emit (PlayAttempt f) s"
    have da: "draining cfg (InTurn t sp rest) a" unfolding a by (rule call)
    then show "draining cfg (InTurn t sp rest) (snd (False, initialize a))"
      by (simp add: draining_initialize)
  next
    fix a s1 assume a: "a = emit (PlayAttempt f) s" and u: "unlinkSync f (initialize a) = Some s1"
    have da: "draining cfg (InTurn t sp rest) a" unfolding a by (rule call)
    from draining_unlinkSync [OF draining_initialize [OF da] c u]
    show "draining cfg (InTurn t sp rest) (snd (False, s1))" by simp
  next
    fix a b assume a: "a = emit (PlayAttempt f) s"
      and b: "b = suspend (emit (PlayCommand f) (a\<lparr>playCalls := Suc (playCalls a)\<rparr>))"
      and "\<not> playCommand env (playCalls a)"
    have da: "draining cfg (InTurn t sp rest) a" unfolding a by (rule call)
    from draining_play_wait [OF da c] b
    show "draining cfg (InTurn t sp rest) (snd (False, b))" by simp
  next
    fix a b assume a: "a = emit (PlayAttempt f) s"
      and b: "b = suspend (emit (PlayCommand f) (a\<lparr>playCalls := Suc (playCalls a)\<rparr>))"
      and "unlinkSync f b = None"
    have da: "draining cfg (InTurn t sp rest) a" unfolding a by (rule call)
    from draining_play_wait [OF da c] b
    show "draining cfg (InTurn t sp rest) (snd (False, b))" by simp
  next
    fix a b s2 assume a: "a = emit (PlayAttempt f) s"
      and b: "b = suspend (emit (PlayCommand f) (a\<lparr>playCalls := Suc (playCalls a)\<rparr>))"
      and u: "unlinkSync f b = Some s2"
    have da: "draining cfg (InTurn t sp rest) a" unfolding a by (rule call)
    from draining_play_wait [OF da c] b have "draining cfg (InTurn t sp rest) b" by simp
    from draining_unlinkSync [OF this c u]
    show "draining cfg (InTurn t sp rest) (snd (True, s2))" by simp
  qed
qed

lemma draining_processChunksParallel:
  assumes cs: "chunkText (MAX_CHUNK_LENGTH cfg) t = Some cs"
    and d: "draining cfg (InTurn t sp rest) s"
  shows "draining cfg (InTurn t sp rest) (snd (processChunksParallel env cfg cs sp s))"
proof -
  let ?R = "\<lambda>s s'. draining cfg (InTurn t sp rest) s \<longrightarrow> draining cfg (InTurn t sp rest) s'"
  have m: "isChunkOf cfg t tx" if "tx \<in> set cs" for tx
    using that cs by (simp add: isChunkOf_def)
  have "?R s (snd (processChunksParallel env cfg cs sp s))"
  proof (rule processChunksParallel_world [where R = ?R])
    fix a b c :: world assume "?R a b" "?R b c"
    then show "?R a c" by simp
  next
    fix tx s assume "tx \<in> set cs"
    then show "?R s (snd (synthesizeSentence env cfg tx sp s))"
      by (auto intro: draining_synthesizeSentence m)
  next
    fix f :: wav and s assume "spoken f \<in> set cs"
    then show "?R s (snd (playAudio env f s))"
      by (auto intro: draining_playAudio m)
  qed (simp_all add: draining_suspend)
  with d show ?thesis by simp
qed

lemma draining_textToSpeech:
  assumes "draining cfg (InList (d # rest)) s"
    and "textToSpeech env cfg (d_text d)
      (case d_speaker d of None \<Rightarrow> DEFAULT_SPEAKER cfg | Some speaker \<Rightarrow> speaker) s = Some (r, s')"
  shows "draining cfg (InList rest) s'"
proof -
  let ?sp = "case d_speaker d of None \<Rightarrow> DEFAULT_SPEAKER cfg | Some speaker \<Rightarrow> speaker"
  from assms(2) obtain cs where cs: "chunkText (MAX_CHUNK_LENGTH cfg) (d_text d) = Some cs"
    by (auto simp: textToSpeech_def split: option.splits)
  let ?s0 = "emit (TurnBegin (d_text d) ?sp) s"
  obtain r1 s1 where p: "processChunksParallel env cfg cs ?sp ?s0 = (r1, s1)"
    by (cases "processChunksParallel env cfg cs ?sp ?s0")
  with assms(2) cs have s': "s' = emit (TurnEnd r1) s1" by (auto simp: textToSpeech_def)
  have "draining cfg (InTurn (d_text d) ?sp rest) ?s0"
    using assms(1)
    by (simp add: draining_def fifo_def enqueued_append dequeued_append phaseAfter_append)
  then have "draining cfg (InTurn (d_text d) ?sp rest) s1"
    using draining_processChunksParallel [OF cs, of ?sp rest ?s0 env] p by simp
  then show ?thesis unfolding s'
    by (simp add: draining_def fifo_def enqueued_append dequeued_append phaseAfter_append)
qed

lemma draining_conversationLoop:
  "draining cfg (InList ds) s \<Longrightarrow> conversationLoop env cfg ds s = Some (r, s') \<Longrightarrow>
   \<exists>rest. draining cfg (InList rest) s'"
proof (induction ds arbitrary: s)
  case Nil
  have "draining cfg (InList []) (s\<lparr>isPlayingAudio := False\<rparr>)"
    using Nil(1) by (rule draining_fields) simp_all
  with Nil(2) show ?case by auto
next
  case (Cons d rest)
  show ?case
  proof (cases "isPlayingAudio s")
    case False
    with Cons.prems show ?thesis by auto
  next
    case True
    let ?sp = "case d_speaker d of None \<Rightarrow> DEFAULT_SPEAKER cfg | Some speaker \<Rightarrow> speaker"
    from True Cons.prems(2) obtain r1 s1 where
      t: "textToSpeech env cfg (d_text d) ?sp s = Some (r1, s1)"
      by (cases "textToSpeech env cfg (d_text d) ?sp s") auto
    have d1: "draining cfg (InList rest) s1" using Cons.prems(1) t by (rule draining_textToSpeech)
    show ?thesis
    proof (cases r1)
      case False
      with True t Cons.prems(2) have "s' = s1\<lparr>isPlayingAudio := False\<rparr>" by simp
      moreover have "draining cfg (InList rest) (s1\<lparr>isPlayingAudio := False\<rparr>)"
        using d1 by (rule draining_fields) simp_all
      ultimately show ?thesis by blast
    next
      case True
      with \<open>isPlayingAudio s\<close> t Cons.prems(2) have "conversationLoop env cfg rest s1 = Some (r, s')"
        by simp
      with d1 show ?thesis by (rule Cons.IH)
    qed
  qed
qed

lemma draining_conversationToSpeech:
  "draining cfg (InList ds) s \<Longrightarrow> conversationToSpeech env cfg ds s = Some (r, s') \<Longrightarrow>
   \<exists>rest. draining cfg (InList rest) s'"
proof -
  assume d: "draining cfg (InList ds) s" and c: "conversationToSpeech env cfg ds s = Some (r, s')"
  have "draining cfg (InList ds) (s\<lparr>isPlayingAudio := True\<rparr>)"
    using d by (rule draining_fields) simp_all
  with c show ?thesis by (auto simp: conversationToSpeech_def intro: draining_conversationLoop)
qed

text \<open>What holds of the player between drains and when a drain begins.\<close>

definition atRest :: "config \<Rightarrow> world \<Rightarrow> bool" where
  "atRest cfg s \<longleftrightarrow> \<not> overlapped s \<and> fifo s \<and> phaseAfter cfg Idle (trace s) = Some Idle"

lemma processQueue_atRest:
  "atRest cfg s \<Longrightarrow> processQueue env cfg s = Some s' \<Longrightarrow>
   atRest cfg s' \<and> queue s' = [] \<and> \<not> isProcessing s'"
proof (induction env cfg s rule: processQueue.induct)
  case (1 env cfg s)
  show ?case
  proof (cases "queue s")
    case Nil
    with "1.prems"(2) have "s' = s\<lparr>isProcessing := False\<rparr>"
      by (subst (asm) processQueue.simps) simp
    with "1.prems"(1) Nil show ?thesis by (simp add: atRest_def fifo_def)
  next
    case (Cons cur rest)
    let ?s0 = "emit (Dequeue cur) (s\<lparr>isProcessing := True, queue := rest\<rparr>)"
    from "1.prems"(2) Cons obtain r s1 where
      c: "conversationToSpeech env cfg cur ?s0 = Some (r, s1)"
      and rec: "processQueue env cfg (emit (ConversationEnd r) s1) = Some s'"
      by (subst (asm) processQueue.simps) (auto split: option.splits)
    have "draining cfg (InList cur) ?s0"
      using "1.prems"(1) Cons
      by (simp add: atRest_def draining_def fifo_def enqueued_append dequeued_append
          phaseAfter_append)
    then obtain left where "draining cfg (InList left) s1"
      using c draining_conversationToSpeech by blast
    then have "atRest cfg (emit (ConversationEnd r) s1)"
      by (simp add: atRest_def draining_def fifo_def enqueued_append dequeued_append
          phaseAfter_append)
    then show ?thesis using rec by (rule "1.IH" [OF Cons c refl])
  qed
qed

text \<open>
  Claim C9. A drain that \<^verbatim>\<open>addToQueue\<close> starts on a player at rest, whatever requests
  arrive while it runs: no second drain is ever started beside it; the turn lists are
  taken off the queue in the order in which they were pushed (all of them, when no stop
  request emptied the queue); and the trace is that of one turn list at a time and of one
  turn at a time: a turn list is taken off the queue only when the one before has ended,
  the turns that begin are the turns of that list in their order, each after the end of
  the one before, and every request to the engine and every file played or deleted
  between the begin and the end of a turn is for a chunk of the text of that turn.
\<close>

theorem drain_in_order:
  "\<not> isProcessing s \<Longrightarrow> queue s = [] \<Longrightarrow> trace s = [] \<Longrightarrow> \<not> overlapped s \<Longrightarrow>
   addToQueue env cfg dialogues s = Some s' \<Longrightarrow>
   \<not> overlapped s' \<and> subseq (dequeued (trace s')) (enqueued (trace s')) \<and>
   (StopRequest \<in> set (trace s') \<or> dequeued (trace s') = enqueued (trace s')) \<and>
   phaseAfter cfg Idle (trace s') = Some Idle"
proof -
  assume a: "\<not> isProcessing s" "queue s = []" "trace s = []" "\<not> overlapped s"
    and run: "addToQueue env cfg dialogues s = Some s'"
  let ?s1 = "emit (Enqueue dialogues) (s\<lparr>queue := queue s @ [dialogues]\<rparr>)"
  have "atRest cfg ?s1" using a by (simp add: atRest_def fifo_def)
  moreover have "processQueue env cfg ?s1 = Some s'"
    using run a by (simp add: addToQueue_def Let_def)
  ultimately have "atRest cfg s' \<and> queue s' = [] \<and> \<not> isProcessing s'"
    by (rule processQueue_atRest)
  then show ?thesis by (auto simp: atRest_def fifo_def)
qed

text \<open>Three turns: two of one chunk each, and one of two sentences.\<close>

definition turnA :: dialogueData where
  "turnA = \<lparr>d_text = [0x41], d_speaker = None\<rparr>"

definition turnB :: dialogueData where
  "turnB = \<lparr>d_text = [0x42], d_speaker = Some 1\<rparr>"

definition turnC :: dialogueData where
  "turnC = \<lparr>d_text = [0x43, 0x2E, 0x44], d_speaker = None\<rparr>"

text \<open>
  A trace in which the second turn of a list begins first, and one in which a turn
  queries a text that is no chunk of it, are not traces of that kind.
\<close>

lemma turns_out_of_order_refused:
  "phaseAfter defaults Idle
     [Enqueue [turnA, turnB], Dequeue [turnA, turnB], TurnBegin [0x42] 1] = None \<and>
   phaseAfter defaults Idle
     [Enqueue [turnA, turnB], Dequeue [turnA, turnB], TurnBegin [0x41] 3, AudioQuery [0x42] 3] = None"
  by code_simp

theorem drain_in_order_witness:
  "addToQueue (engine [] (\<lambda>n. True)) defaults [turnA, turnB] (idle [[Speak [turnC]]]) \<noteq> None \<and>
   \<not> overlapped (the (addToQueue (engine [] (\<lambda>n. True)) defaults [turnA, turnB]
        (idle [[Speak [turnC]]]))) \<and>
   phaseAfter defaults Idle (trace (the (addToQueue (engine [] (\<lambda>n. True)) defaults [turnA, turnB]
        (idle [[Speak [turnC]]])))) = Some Idle \<and>
   dequeued (trace (the (addToQueue (engine [] (\<lambda>n. True)) defaults [turnA, turnB]
        (idle [[Speak [turnC]]])))) = [[turnA, turnB], [turnC]] \<and>
   played (trace (the (addToQueue (engine [] (\<lambda>n. True)) defaults [turnA, turnB]
        (idle [[Speak [turnC]]])))) = [[0x41], [0x42], [0x43, 0x2E], [0x44]]"
proof -
  let ?r = "addToQueue (engine [] (\<lambda>n. True)) defaults [turnA, turnB] (idle [[Speak [turnC]]])"
  have ne: "?r \<noteq> None" by code_simp
  then obtain s' where s': "?r = Some s'" by blast
  have d: "dequeued (trace (the ?r)) = [[turnA, turnB], [turnC]]" by code_simp
  have p: "played (trace (the ?r)) = [[0x41], [0x42], [0x43, 0x2E], [0x44]]" by code_simp
  have "\<not> overlapped s' \<and> phaseAfter defaults Idle (trace s') = Some Idle"
    using drain_in_order [of "idle [[Speak [turnC]]]" "engine [] (\<lambda>n. True)" defaults
        "[turnA, turnB]" s'] s'
    by (simp add: idle_def)
  with s' ne d p show ?thesis by simp
qed

subsection \<open>A drain returns\<close>

lemma conversationLoop_returns:
  "0 < MAX_CHUNK_LENGTH cfg \<Longrightarrow> \<exists>r s'. conversationLoop env cfg ds s = Some (r, s')"
proof (induction ds arbitrary: s)
  case Nil
  show ?case by auto
next
  case (Cons d rest)
  let ?sp = "case d_speaker d of None \<Rightarrow> DEFAULT_SPEAKER cfg | Some speaker \<Rightarrow> speaker"
  obtain cs where "chunkText (MAX_CHUNK_LENGTH cfg) (d_text d) = Some cs"
    using Cons.prems by (simp add: chunkText_eq)
  then obtain r1 s1 where t: "textToSpeech env cfg (d_text d) ?sp s = Some (r1, s1)"
    by (cases "processChunksParallel env cfg cs ?sp (emit (TurnBegin (d_text d) ?sp) s)")
      (simp add: textToSpeech_def)
  from Cons.IH [OF Cons.prems, of s1] t show ?case by auto
qed

lemma processQueue_returns:
  "0 < MAX_CHUNK_LENGTH cfg \<Longrightarrow> \<exists>s'. processQueue env cfg s = Some s'"
proof (induction env cfg s rule: processQueue.induct)
  case (1 env cfg s)
  show ?case
  proof (cases "queue s")
    case Nil
    then show ?thesis by (subst processQueue.simps) simp
  next
    case (Cons cur rest)
    let ?s0 = "emit (Dequeue cur) (s\<lparr>isProcessing := True, queue := rest\<rparr>)"
    obtain r s1 where c: "conversationToSpeech env cfg cur ?s0 = Some (r, s1)"
      using conversationLoop_returns [OF "1.prems", of env cur "?s0\<lparr>isPlayingAudio := True\<rparr>"]
      by (auto simp: conversationToSpeech_def)
    from "1.IH" [OF Cons c refl "1.prems"] Cons c show ?thesis
      by (subst processQueue.simps) simp
  qed
qed

section \<open>Nothing is played after a stop\<close>

lemma stopAudio_clears: "\<not> isPlayingAudio (stopAudio s) \<and> queue (stopAudio s) = []"
  by (simp add: stopAudio_def)

text \<open>
  Reading a trace from the left: \<open>stopped\<close> says that the last request that changed the
  queue was a stop request. The result is \<open>None\<close> when a platform playback command is
  started while stopped, and the final value of \<open>stopped\<close> otherwise.
\<close>

fun scan :: "bool \<Rightarrow> event list \<Rightarrow> bool option" where
  "scan stopped [] = Some stopped"
| "scan stopped (StopRequest # es) = scan True es"
| "scan stopped (Enqueue ds # es) = scan False es"
| "scan stopped (PlayCommand f # es) = (if stopped then None else scan False es)"
| "scan stopped (e # es) = scan stopped es"

lemma scan_append:
  "scan st (xs @ ys) = (case scan st xs of None \<Rightarrow> None | Some st' \<Rightarrow> scan st' ys)"
  by (induction st xs rule: scan.induct) simp_all

lemma scan_stopped_silent: "scan True es = Some st \<Longrightarrow> enqueued es = [] \<Longrightarrow> played es = []"
proof (induction es)
  case Nil
  show ?case by simp
next
  case (Cons e es)
  then show ?case by (cases e) simp_all
qed

lemma scan_after_stop:
  assumes "scan st0 (pre @ StopRequest # post) = Some st" and "enqueued post = []"
  shows "played post = []"
proof -
  from assms(1) obtain st1 where "scan st0 pre = Some st1" and "scan True post = Some st"
    by (auto simp: scan_append split: option.splits)
  with assms(2) show ?thesis by (auto intro: scan_stopped_silent)
qed

text \<open>
  What holds of every world of a drain: no playback command was started while stopped,
  and while stopped the flag is false and the queue is empty.
\<close>

definition stopInv :: "world \<Rightarrow> bool" where
  "stopInv s \<longleftrightarrow>
     (case scan False (trace s) of
        None \<Rightarrow> False
      | Some stopped \<Rightarrow> stopped \<longrightarrow> \<not> isPlayingAudio s \<and> queue s = [])"

fun isQuietEvent :: "event \<Rightarrow> bool" where
  "isQuietEvent StopRequest = False"
| "isQuietEvent (Enqueue ds) = False"
| "isQuietEvent (PlayCommand f) = False"
| "isQuietEvent e = True"

lemma stopInv_emit: "stopInv s \<Longrightarrow> isQuietEvent e \<Longrightarrow> stopInv (emit e s)"
  by (cases e) (auto simp: stopInv_def scan_append split: option.splits)

lemma stopInv_emit_play: "stopInv s \<Longrightarrow> isPlayingAudio s \<Longrightarrow> stopInv (emit (PlayCommand f) s)"
  by (auto simp: stopInv_def scan_append split: option.splits)

lemma stopInv_fields:
  "stopInv s \<Longrightarrow> trace s' = trace s \<Longrightarrow> queue s' = queue s \<Longrightarrow>
   (isPlayingAudio s' \<longrightarrow> isPlayingAudio s) \<Longrightarrow> stopInv s'"
  by (auto simp: stopInv_def split: option.splits)

lemma stopInv_deliver: "stopInv s \<Longrightarrow> stopInv (deliver r s)"
  by (cases r) (auto simp: stopInv_def stopAudio_def Let_def scan_append split: option.splits)

lemma stopInv_fold_deliver: "stopInv s \<Longrightarrow> stopInv (fold deliver rs s)"
  by (induction rs arbitrary: s) (simp_all add: stopInv_deliver)

lemma stopInv_suspend: "stopInv s \<Longrightarrow> stopInv (suspend s)"
proof (cases "inbox s")
  case Nil
  assume "stopInv s"
  with Nil show ?thesis by (simp add: suspend_def)
next
  case (Cons rs rest)
  assume "stopInv s"
  then have "stopInv (s\<lparr>inbox := rest\<rparr>)" by (rule stopInv_fields) simp_all
  then have "stopInv (fold deliver rs (s\<lparr>inbox := rest\<rparr>))" by (rule stopInv_fold_deliver)
  with Cons show ?thesis by (simp add: suspend_def)
qed

lemma stopInv_synthesizeSentence:
  "stopInv s \<Longrightarrow> stopInv (snd (synthesizeSentence env cfg tx sp s))"
proof -
  assume d: "stopInv s"
  let ?s1 = "emit (AudioQuery tx sp) (s\<lparr>synthCalls := Suc (synthCalls s)\<rparr>)"
  have "stopInv (s\<lparr>synthCalls := Suc (synthCalls s)\<rparr>)"
    using d by (rule stopInv_fields) simp_all
  then have 1: "stopInv ?s1" by (rule stopInv_emit) simp
  have 2: "stopInv (emit (Synthesis q sp) ?s1)" for q
    using 1 by (rule stopInv_emit) simp
  have 3: "stopInv ((emit (Synthesis q sp) ?s1)\<lparr>files := F\<rparr>)" for q F
    using 2 [of q] by (rule stopInv_fields) simp_all
  show ?thesis using 1 2 3
    by (simp add: synthesizeSentence_def Let_def split: option.splits)
qed

lemma stopInv_unlinkSync: "stopInv s \<Longrightarrow> unlinkSync f s = Some s' \<Longrightarrow> stopInv s'"
proof -
  assume d: "stopInv s" and u: "unlinkSync f s = Some s'"
  have "stopInv (s\<lparr>files := files s - {f}\<rparr>)" using d by (rule stopInv_fields) simp_all
  then have "stopInv (emit (Unlink f) (s\<lparr>files := files s - {f}\<rparr>))"
    by (rule stopInv_emit) simp
  with u show ?thesis by (simp add: unlinkSync_def split: if_splits)
qed

lemma stopInv_initialize: "stopInv s \<Longrightarrow> stopInv (initialize s)"
proof -
  assume d: "stopInv s"
  show ?thesis by (rule stopInv_fields [OF d]) (simp_all add: initialize_flag)
qed

lemma stopInv_play_wait:
  "stopInv s \<Longrightarrow> isPlayingAudio s \<Longrightarrow>
   stopInv (suspend (emit (PlayCommand f) (s\<lparr>playCalls := Suc (playCalls s)\<rparr>)))"
proof -
  assume d: "stopInv s" and fl: "isPlayingAudio s"
  have "stopInv (s\<lparr>playCalls := Suc (playCalls s)\<rparr>)" using d by (rule stopInv_fields) simp_all
  then have "stopInv (emit (PlayCommand f) (s\<lparr>playCalls := Suc (playCalls s)\<rparr>))"
    using fl by (intro stopInv_emit_play) simp_all
  then show ?thesis by (rule stopInv_suspend)
qed

lemma stopInv_playAudio: "stopInv s \<Longrightarrow> stopInv (snd (playAudio env f s))"
proof -
  assume d: "stopInv s"
  have call: "stopInv (emit (PlayAttempt f) s)" using d by (rule stopInv_emit) simp
  show ?thesis
  proof (rule playAudio_cases [of f s "\<lambda>x. stopInv (snd x)" env])
    fix a assume a: "a = emit (PlayAttempt f) s"
    have da: "stopInv a" unfolding a by (rule call)
    then show "stopInv (snd (False, initialize a))" by (simp add: stopInv_initialize)
  next
    fix a s1 assume a: "a = emit (PlayAttempt f) s" and "unlinkSync f (initialize a) = Some s1"
    have da: "stopInv a" unfolding a by (rule call)
    with \<open>unlinkSync f (initialize a) = Some s1\<close> stopInv_initialize [OF da]
    show "stopInv (snd (False, s1))" by (simp add: stopInv_unlinkSync)
  next
    fix a b assume a: "a = emit (PlayAttempt f) s" and fl: "isPlayingAudio a"
      and b: "b = suspend (emit (PlayCommand f) (a\<lparr>playCalls := Suc (playCalls a)\<rparr>))"
      and "\<not> playCommand env (playCalls a)"
    have da: "stopInv a" unfolding a by (rule call)
    from stopInv_play_wait [OF da fl, of f] b show "stopInv (snd (False, b))" by simp
  next
    fix a b assume a: "a = emit (PlayAttempt f) s" and fl: "isPlayingAudio a"
      and b: "b = suspend (emit (PlayCommand f) (a\<lparr>playCalls := Suc (playCalls a)\<rparr>))"
      and "unlinkSync f b = None"
    have da: "stopInv a" unfolding a by (rule call)
    from stopInv_play_wait [OF da fl, of f] b show "stopInv (snd (False, b))" by simp
  next
    fix a b s2 assume a: "a = emit (PlayAttempt f) s" and fl: "isPlayingAudio a"
      and b: "b = suspend (emit (PlayCommand f) (a\<lparr>playCalls := Suc (playCalls a)\<rparr>))"
      and u: "unlinkSync f b = Some s2"
    have da: "stopInv a" unfolding a by (rule call)
    from stopInv_play_wait [OF da fl, of f] b have "stopInv b" by simp
    with u show "stopInv (snd (True, s2))" by (simp add: stopInv_unlinkSync)
  qed
qed

lemma stopInv_conversationLoop:
  "stopInv s \<Longrightarrow> conversationLoop env cfg ds s = Some (r, s') \<Longrightarrow> stopInv s'"
proof -
  let ?R = "\<lambda>s s'. stopInv s \<longrightarrow> stopInv s'"
  assume c: "conversationLoop env cfg ds s = Some (r, s')"
  have "?R s s'"
  proof (rule conversationLoop_world [of ?R env cfg ds s r s'])
    fix a b c :: world assume "?R a b" "?R b c"
    then show "?R a c" by simp
  next
    fix e s assume "isTurnEvent e"
    then have "isQuietEvent e" by (cases e) simp_all
    then show "?R s (emit e s)" by (simp add: stopInv_emit)
  next
    show "conversationLoop env cfg ds s = Some (r, s')" by (rule c)
  next
    fix s show "?R s (s\<lparr>isPlayingAudio := False\<rparr>)"
      by (auto intro: stopInv_fields)
  qed (simp_all add: stopInv_suspend stopInv_synthesizeSentence stopInv_playAudio)
  then show "stopInv s \<Longrightarrow> stopInv s'" by simp
qed

lemma stopInv_processQueue:
  "stopInv s \<Longrightarrow> processQueue env cfg s = Some s' \<Longrightarrow> stopInv s' \<and> queue s' = []"
proof (induction env cfg s rule: processQueue.induct)
  case (1 env cfg s)
  show ?case
  proof (cases "queue s")
    case Nil
    with "1.prems"(2) have s': "s' = s\<lparr>isProcessing := False\<rparr>"
      by (subst (asm) processQueue.simps) simp
    have "stopInv (s\<lparr>isProcessing := False\<rparr>)" using "1.prems"(1) by (rule stopInv_fields) simp_all
    with s' Nil show ?thesis by simp
  next
    case (Cons cur rest)
    let ?s0 = "emit (Dequeue cur) (s\<lparr>isProcessing := True, queue := rest\<rparr>)"
    from "1.prems"(2) Cons obtain r s1 where
      c: "conversationToSpeech env cfg cur ?s0 = Some (r, s1)"
      and rec: "processQueue env cfg (emit (ConversationEnd r) s1) = Some s'"
      by (subst (asm) processQueue.simps) (auto split: option.splits)
    have "scan False (trace s) = Some False"
      using "1.prems"(1) Cons by (auto simp: stopInv_def split: option.splits)
    then have "stopInv (?s0\<lparr>isPlayingAudio := True\<rparr>)"
      by (simp add: stopInv_def scan_append)
    then have "stopInv s1"
      using c by (auto simp: conversationToSpeech_def intro: stopInv_conversationLoop)
    then have "stopInv (emit (ConversationEnd r) s1)" by (rule stopInv_emit) simp
    then show ?thesis using rec by (rule "1.IH" [OF Cons c refl])
  qed
qed

text \<open>
  Claim C6. The stop operation sets the flag to false and empties the queue. In a drain
  that \<^verbatim>\<open>addToQueue\<close> starts on a player at rest, with any engine, player and requests: if
  a stop request is handled before any platform playback command was started, and no
  turn list is enqueued after it, then no platform playback command is ever started and
  the queue is empty when the drain ends. The drain ends whenever \<open>MAX_CHUNK_LENGTH\<close> is
  positive.
\<close>

theorem stop_before_playback:
  "\<not> isProcessing s \<Longrightarrow> queue s = [] \<Longrightarrow> trace s = [] \<Longrightarrow>
   (\<not> isPlayingAudio (stopAudio s) \<and> queue (stopAudio s) = []) \<and>
   (0 < MAX_CHUNK_LENGTH cfg \<longrightarrow> addToQueue env cfg dialogues s \<noteq> None) \<and>
   (\<forall>s' pre post. addToQueue env cfg dialogues s = Some s' \<and> trace s' = pre @ StopRequest # post \<and>
        played pre = [] \<and> enqueued post = [] \<longrightarrow>
      played (trace s') = [] \<and> queue s' = [])"
proof (intro conjI allI impI)
  assume idle: "\<not> isProcessing s" "queue s = []" "trace s = []"
  let ?s1 = "emit (Enqueue dialogues) (s\<lparr>queue := queue s @ [dialogues]\<rparr>)"
  have run: "addToQueue env cfg dialogues s = processQueue env cfg ?s1"
    using idle by (simp add: addToQueue_def Let_def)
  show "\<not> isPlayingAudio (stopAudio s)" and "queue (stopAudio s) = []"
    using stopAudio_clears [of s] by simp_all
  show "addToQueue env cfg dialogues s \<noteq> None" if "0 < MAX_CHUNK_LENGTH cfg"
    using processQueue_returns [OF that, of env ?s1] run by auto
  fix s' pre post
  assume a: "addToQueue env cfg dialogues s = Some s' \<and> trace s' = pre @ StopRequest # post \<and>
        played pre = [] \<and> enqueued post = []"
  have "stopInv ?s1" using idle by (simp add: stopInv_def)
  with a run have inv: "stopInv s'" and q: "queue s' = []"
    using stopInv_processQueue [of ?s1 env cfg s'] by simp_all
  from inv a obtain st where "scan False (pre @ StopRequest # post) = Some st"
    by (auto simp: stopInv_def split: option.splits)
  with a have "played post = []" by (auto intro: scan_after_stop)
  with a show "played (trace s') = []" by (simp add: played_append)
  show "queue s' = []" by (rule q)
qed

lemma split_at_first:
  "x \<in> set xs \<Longrightarrow>
   xs = takeWhile (\<lambda>e. e \<noteq> x) xs @ x # tl (dropWhile (\<lambda>e. e \<noteq> x) xs)"
  by (induction xs) auto

theorem stop_before_playback_witness:
  "\<exists>s'. addToQueue (engine [] (\<lambda>n. True)) defaults [turnA, turnB] (idle [[StopSpeak]]) = Some s' \<and>
      StopRequest \<in> set (trace s') \<and> AudioQuery [0x41] 3 \<in> set (trace s') \<and>
      played (trace s') = [] \<and> queue s' = []"
proof -
  let ?r = "addToQueue (engine [] (\<lambda>n. True)) defaults [turnA, turnB] (idle [[StopSpeak]])"
  let ?tr = "trace (the ?r)"
  note inst = stop_before_playback [of "idle [[StopSpeak]]" defaults "engine [] (\<lambda>n. True)"
      "[turnA, turnB]"]
  have rest: "\<not> isProcessing (idle [[StopSpeak]])" "queue (idle [[StopSpeak]]) = []"
    "trace (idle [[StopSpeak]]) = []"
    by (simp_all add: idle_def)
  have "?r \<noteq> None" using inst [OF rest] by (simp add: defaults_def)
  then obtain s' where s': "?r = Some s'" by blast
  have st: "StopRequest \<in> set ?tr" by code_simp
  have aq: "AudioQuery [0x41] 3 \<in> set ?tr" by code_simp
  have p: "played (takeWhile (\<lambda>e. e \<noteq> StopRequest) ?tr) = []" by code_simp
  have e: "enqueued (tl (dropWhile (\<lambda>e. e \<noteq> StopRequest) ?tr)) = []" by code_simp
  have "trace s' = takeWhile (\<lambda>e. e \<noteq> StopRequest) (trace s') @
      StopRequest # tl (dropWhile (\<lambda>e. e \<noteq> StopRequest) (trace s'))"
    using st s' by (intro split_at_first) simp
  with inst [OF rest] s' p e have "played (trace s') = [] \<and> queue s' = []"
    by (metis option.sel)
  with s' st aq show ?thesis by simp
qed

section \<open>The texts sent to the engine\<close>

text \<open>The texts of the query requests, in order.\<close>

fun queried :: "event list \<Rightarrow> jsstring list" where
  "queried [] = []"
| "queried (AudioQuery t sp # es) = t # queried es"
| "queried (e # es) = queried es"

lemma queried_append: "queried (xs @ ys) = queried xs @ queried ys"
  by (induction xs rule: queried.induct) simp_all

lemma queried_queue_events: "list_all isQueueEvent es \<Longrightarrow> queried es = []"
proof (induction es)
  case Nil
  show ?case by simp
next
  case (Cons e es)
  then show ?case by (cases e) simp_all
qed

text \<open>A step of a run on \<open>chunks\<close> sends chunks only.\<close>

definition queryRel :: "jsstring list \<Rightarrow> world \<Rightarrow> world \<Rightarrow> bool" where
  "queryRel chunks s s' \<longleftrightarrow> (\<exists>new. trace s' = trace s @ new \<and> set (queried new) \<subseteq> set chunks)"

lemma queryRel_refl: "queryRel chunks s s"
  by (simp add: queryRel_def)

lemma queryRel_trans: "queryRel chunks a b \<Longrightarrow> queryRel chunks b c \<Longrightarrow> queryRel chunks a c"
proof -
  assume "queryRel chunks a b" "queryRel chunks b c"
  then obtain n1 n2 where "trace b = trace a @ n1" "set (queried n1) \<subseteq> set chunks"
    "trace c = trace b @ n2" "set (queried n2) \<subseteq> set chunks"
    unfolding queryRel_def by blast
  then have "trace c = trace a @ (n1 @ n2) \<and> set (queried (n1 @ n2)) \<subseteq> set chunks"
    by (simp add: queried_append)
  then show ?thesis unfolding queryRel_def by blast
qed

lemma queryRel_suspend: "queryRel chunks s (suspend s)"
proof -
  obtain new where "trace (suspend s) = trace s @ new" "list_all isQueueEvent new"
    using suspend_trace by blast
  then show ?thesis unfolding queryRel_def
    by (intro exI [of _ new]) (simp add: queried_queue_events)
qed

lemma queryRel_synthesizeSentence:
  "tx \<in> set chunks \<Longrightarrow> queryRel chunks s (snd (synthesizeSentence env cfg tx sp s))"
  by (auto simp: queryRel_def synthesizeSentence_def Let_def split: option.splits)

lemma queryRel_unlinkSync: "unlinkSync f s = Some s' \<Longrightarrow> queryRel chunks s s'"
  by (drule unlinkSync_fields) (simp add: queryRel_def)

lemma queryRel_initialize: "queryRel chunks s (initialize s)"
  by (simp add: queryRel_def)

lemma queryRel_play_wait:
  "queryRel chunks s (suspend (emit (PlayCommand f) (s\<lparr>playCalls := Suc (playCalls s)\<rparr>)))"
proof -
  let ?a = "emit (PlayCommand f) (s\<lparr>playCalls := Suc (playCalls s)\<rparr>)"
  have "queryRel chunks s ?a" by (simp add: queryRel_def)
  then show ?thesis using queryRel_suspend [of chunks ?a] by (rule queryRel_trans)
qed

lemma queryRel_playAudio: "queryRel chunks s (snd (playAudio env f s))"
proof -
  have call: "queryRel chunks s (emit (PlayAttempt f) s)" by (simp add: queryRel_def)
  show ?thesis
  proof (rule playAudio_cases [of f s "\<lambda>x. queryRel chunks s (snd x)" env])
    fix a assume a: "a = emit (PlayAttempt f) s"
    from call queryRel_initialize [of chunks a]
    show "queryRel chunks s (snd (False, initialize a))" unfolding a by (auto intro: queryRel_trans)
  next
    fix a s1 assume a: "a = emit (PlayAttempt f) s" and u: "unlinkSync f (initialize a) = Some s1"
    from call queryRel_initialize [of chunks a] have "queryRel chunks s (initialize a)"
      unfolding a by (rule queryRel_trans)
    with queryRel_unlinkSync [OF u] show "queryRel chunks s (snd (False, s1))"
      by (auto intro: queryRel_trans)
  next
    fix a b assume a: "a = emit (PlayAttempt f) s"
      and b: "b = suspend (emit (PlayCommand f) (a\<lparr>playCalls := Suc (playCalls a)\<rparr>))"
      and "\<not> playCommand env (playCalls a)"
    from call queryRel_play_wait [of chunks a f] b
    show "queryRel chunks s (snd (False, b))" unfolding a by (auto intro: queryRel_trans)
  next
    fix a b assume a: "a = emit (PlayAttempt f) s"
      and b: "b = suspend (emit (PlayCommand f) (a\<lparr>playCalls := Suc (playCalls a)\<rparr>))"
      and "unlinkSync f b = None"
    from call queryRel_play_wait [of chunks a f] b
    show "queryRel chunks s (snd (False, b))" unfolding a by (auto intro: queryRel_trans)
  next
    fix a b s2 assume a: "a = emit (PlayAttempt f) s"
      and b: "b = suspend (emit (PlayCommand f) (a\<lparr>playCalls := Suc (playCalls a)\<rparr>))"
      and u: "unlinkSync f b = Some s2"
    from call queryRel_play_wait [of chunks a f] b have "queryRel chunks s b"
      unfolding a by (auto intro: queryRel_trans)
    with queryRel_unlinkSync [OF u] show "queryRel chunks s (snd (True, s2))"
      by (auto intro: queryRel_trans)
  qed
qed

lemma queried_processChunksParallel:
  "queryRel chunks s (snd (processChunksParallel env cfg chunks speaker s))"
proof (rule processChunksParallel_world [where R = "queryRel chunks"])
  fix a b c assume "queryRel chunks a b" "queryRel chunks b c"
  then show "queryRel chunks a c" by (rule queryRel_trans)
qed (simp_all add: queryRel_refl queryRel_suspend queryRel_synthesizeSentence queryRel_playAudio)

text \<open>
  Claim C10. Provided \<open>MAX_CHUNK_LENGTH\<close> is at least 1, the chunking stage returns and
  every chunk it produces is a non-empty string; so \<^verbatim>\<open>textToSpeech\<close> returns, and every
  text it passes to the synthesizer client is non-empty.
\<close>

theorem chunks_nonempty:
  "0 < MAX_CHUNK_LENGTH cfg \<Longrightarrow>
   (\<exists>cs. chunkText (MAX_CHUNK_LENGTH cfg) tx = Some cs \<and> list_all (\<lambda>c. 0 < length c) cs) \<and>
   (\<exists>r s' new. textToSpeech env cfg tx speaker s = Some (r, s') \<and> trace s' = trace s @ new \<and>
      list_all (\<lambda>t. 0 < length t) (queried new))"
proof -
  assume mx: "0 < MAX_CHUNK_LENGTH cfg"
  then obtain cs where cs: "chunkText (MAX_CHUNK_LENGTH cfg) tx = Some cs" by (simp add: chunkText_eq)
  have ne: "list_all (\<lambda>c. 0 < length c) cs"
    using chunkText_lengths [OF mx cs] by (simp add: list_all_iff)
  let ?s0 = "emit (TurnBegin tx speaker) s"
  obtain r s1 where p: "processChunksParallel env cfg cs speaker ?s0 = (r, s1)"
    by (cases "processChunksParallel env cfg cs speaker ?s0")
  obtain new where n: "trace s1 = trace ?s0 @ new" "set (queried new) \<subseteq> set cs"
    using queried_processChunksParallel [of cs ?s0 env cfg speaker] p
    by (auto simp: queryRel_def)
  have t: "textToSpeech env cfg tx speaker s = Some (r, emit (TurnEnd r) s1)"
    using cs p by (simp add: textToSpeech_def)
  have "trace (emit (TurnEnd r) s1) = trace s @ (TurnBegin tx speaker # new @ [TurnEnd r])"
    using n(1) by simp
  moreover have "list_all (\<lambda>t. 0 < length t) (queried (TurnBegin tx speaker # new @ [TurnEnd r]))"
    using n(2) ne by (auto simp: queried_append list_all_iff)
  ultimately show ?thesis using cs ne t by blast
qed

theorem chunks_nonempty_witness:
  "(\<exists>cs. chunkText 2 [0x61, 0x2E, 0x20, 0x62, 0x63, 0x64, 0x65, 0x3002, 0x2E, 0x20] = Some cs \<and>
      list_all (\<lambda>c. 0 < length c) cs) \<and>
   (\<exists>r s' new. textToSpeech (engine [] (\<lambda>n. True)) (defaults\<lparr>MAX_CHUNK_LENGTH := 2\<rparr>)
        [0x61, 0x2E, 0x20, 0x62, 0x63, 0x64, 0x65, 0x3002, 0x2E, 0x20] 3 (speaking []) = Some (r, s') \<and>
      trace s' = new \<and> list_all (\<lambda>t. 0 < length t) (queried new))"
  using chunks_nonempty [of "defaults\<lparr>MAX_CHUNK_LENGTH := 2\<rparr>"
      "[0x61, 0x2E, 0x20, 0x62, 0x63, 0x64, 0x65, 0x3002, 0x2E, 0x20]" "engine [] (\<lambda>n. True)" 3
      "speaking []"]
  by (simp add: speaking_def idle_def)

end
